theory Spec2Isabelle
  imports Main "HOL-Library.Sublist"
begin

section \<open>Texts and character classes\<close>

text \<open>
  The script \<^verbatim>\<open>convert_controllers.py\<close> rewrites whole file contents with Python's
  \<^verbatim>\<open>re\<close> module. A text is a \<^typ>\<open>string\<close>; a character stands for the code point of
  the same number (0 to 255). The classes \<^verbatim>\<open>\s\<close> and \<^verbatim>\<open>\w\<close> are those of Python's \<^verbatim>\<open>re\<close>
  on \<^verbatim>\<open>str\<close> patterns, restricted to these code points: \<^verbatim>\<open>\s\<close> is \<^verbatim>\<open>str.isspace\<close>,
  \<^verbatim>\<open>\w\<close> is \<^verbatim>\<open>str.isalnum\<close> or the underscore.
\<close>

definition is_space :: "char \<Rightarrow> bool" where
  "is_space c =
     (let n = (of_char c :: nat)
      in (9 \<le> n \<and> n \<le> 13) \<or> (28 \<le> n \<and> n \<le> 32) \<or> n = 133 \<or> n = 160)"

definition is_word :: "char \<Rightarrow> bool" where
  "is_word c =
     (let n = (of_char c :: nat)
      in (48 \<le> n \<and> n \<le> 57) \<or> (65 \<le> n \<and> n \<le> 90) \<or> n = 95 \<or> (97 \<le> n \<and> n \<le> 122)
         \<or> n = 170 \<or> n = 178 \<or> n = 179 \<or> n = 181 \<or> n = 185 \<or> n = 186
         \<or> (188 \<le> n \<and> n \<le> 190) \<or> (192 \<le> n \<and> n \<le> 214) \<or> (216 \<le> n \<and> n \<le> 246)
         \<or> 248 \<le> n)"

definition newline :: char where
  "newline = CHR 0x0A"

datatype cclass =
    Space          \<comment> \<open>\<^verbatim>\<open>\s\<close>\<close>
  | WordC          \<comment> \<open>\<^verbatim>\<open>\w\<close>\<close>
  | AnyButNL       \<comment> \<open>\<^verbatim>\<open>.\<close> without \<^verbatim>\<open>re.DOTALL\<close>\<close>
  | AnyC           \<comment> \<open>\<^verbatim>\<open>.\<close> under \<^verbatim>\<open>re.DOTALL\<close>\<close>
  | Not char       \<comment> \<open>\<^verbatim>\<open>[^c]\<close>\<close>

fun cls :: "cclass \<Rightarrow> char \<Rightarrow> bool" where
  "cls Space c = is_space c"
| "cls WordC c = is_word c"
| "cls AnyButNL c = (c \<noteq> newline)"
| "cls AnyC c = True"
| "cls (Not d) c = (c \<noteq> d)"

section \<open>The regular expressions of the script\<close>

text \<open>
  Every pattern of the script is a sequence of literal texts, of repetitions of one
  character class (greedy \<^verbatim>\<open>*\<close> and \<^verbatim>\<open>+\<close>, lazy \<^verbatim>\<open>*?\<close>) and of the end-of-line test
  \<^verbatim>\<open>$\<close> under \<^verbatim>\<open>re.MULTILINE\<close>. A pattern is the list of these nodes.
\<close>

datatype node =
    Str string     \<comment> \<open>a literal text\<close>
  | Star cclass    \<comment> \<open>\<^verbatim>\<open>c*\<close>, longest first\<close>
  | Plus cclass    \<comment> \<open>\<^verbatim>\<open>c+\<close>, longest first\<close>
  | Lazy cclass    \<comment> \<open>\<^verbatim>\<open>c*?\<close>, shortest first\<close>
  | Eol            \<comment> \<open>\<^verbatim>\<open>$\<close> with \<^verbatim>\<open>re.MULTILINE\<close>: the end of the text, or just before a newline\<close>

type_synonym regex = "node list"

text \<open>
  A match of a pattern at the start of a text: the text each node consumed, in the order
  of the nodes, and the rest of the text after the match.
\<close>

type_synonym rmatch = "string list \<times> string"

fun cons_first :: "char \<Rightarrow> rmatch \<Rightarrow> rmatch" where
  "cons_first x ([], r) = ([[x]], r)"
| "cons_first x (g # gs, r) = ((x # g) # gs, r)"

fun add_seg :: "string \<Rightarrow> rmatch \<Rightarrow> rmatch" where
  "add_seg l (gs, r) = (l # gs, r)"

text \<open>
  The backtracking matcher of \<^verbatim>\<open>re\<close>: alternatives are tried in the order of the engine
  (a greedy repetition takes one more character before it tries the rest of the pattern,
  a lazy one tries the rest of the pattern first), and the first success is the match.
\<close>

fun rmatch :: "regex \<Rightarrow> string \<Rightarrow> rmatch option" where
  "rmatch [] s = Some ([], s)"
| "rmatch (Str l # ns) s =
     (if prefix l s then map_option (add_seg l) (rmatch ns (drop (length l) s)) else None)"
| "rmatch (Eol # ns) [] = map_option (add_seg []) (rmatch ns [])"
| "rmatch (Eol # ns) (x # xs) =
     (if x = newline then map_option (add_seg []) (rmatch ns (x # xs)) else None)"
| "rmatch (Star c # ns) [] = map_option (add_seg []) (rmatch ns [])"
| "rmatch (Star c # ns) (x # xs) =
     (if cls c x then
        (case rmatch (Star c # ns) xs of
           Some m \<Rightarrow> Some (cons_first x m)
         | None \<Rightarrow> map_option (add_seg []) (rmatch ns (x # xs)))
      else map_option (add_seg []) (rmatch ns (x # xs)))"
| "rmatch (Plus c # ns) [] = None"
| "rmatch (Plus c # ns) (x # xs) =
     (if cls c x then map_option (cons_first x) (rmatch (Star c # ns) xs) else None)"
| "rmatch (Lazy c # ns) [] = map_option (add_seg []) (rmatch ns [])"
| "rmatch (Lazy c # ns) (x # xs) =
     (case rmatch ns (x # xs) of
        Some m \<Rightarrow> Some (add_seg [] m)
      | None \<Rightarrow>
          (if cls c x then map_option (cons_first x) (rmatch (Lazy c # ns) xs) else None))"

section \<open>Exceptions\<close>

text \<open>
  The exceptions of the script: \<^verbatim>\<open>match.group(n)\<close> raises \<^verbatim>\<open>IndexError\<close> for a group the
  match does not have, and \<^verbatim>\<open>open(filepath, 'r')\<close> raises \<^verbatim>\<open>FileNotFoundError\<close> for a file that
  does not exist. Every other failure of \<^verbatim>\<open>open\<close> (a directory, missing rights, a text that cannot
  be decoded) is outside the model: the script leaves it unhandled, and the files of the
  model that exist can be read and written. A group of a pattern is a run of its nodes:
  \<open>group gs i k\<close> is the text of the \<open>k\<close> nodes from node \<open>i\<close> on.
\<close>

datatype error = IndexError | FileNotFoundError

fun bind_e :: "error + 'a \<Rightarrow> ('a \<Rightarrow> error + 'b) \<Rightarrow> error + 'b" where
  "bind_e (Inl e) f = Inl e"
| "bind_e (Inr x) f = f x"

definition group :: "string list \<Rightarrow> nat \<Rightarrow> nat \<Rightarrow> error + string" where
  "group gs i k = (if i + k \<le> length gs then Inr (concat (take k (drop i gs))) else Inl IndexError)"

section \<open>Search and substitution\<close>

text \<open>
  \<^verbatim>\<open>re.search\<close>: the first position of the text at which the pattern matches. The result
  is the text before the match and the match.
\<close>

fun re_search :: "regex \<Rightarrow> string \<Rightarrow> (string \<times> rmatch) option" where
  "re_search p [] = map_option (Pair []) (rmatch p [])"
| "re_search p (x # xs) =
     (case rmatch p (x # xs) of
        Some m \<Rightarrow> Some ([], m)
      | None \<Rightarrow> map_option (\<lambda>(pre, m). (x # pre, m)) (re_search p xs))"

text \<open>
  \<^verbatim>\<open>re.sub(pattern, repl, text)\<close> with a function \<^verbatim>\<open>repl\<close> of the match: the matches are
  found from left to right, each search starting where the last match ended, and each is
  replaced by \<^verbatim>\<open>repl\<close> of it. A match that consumes nothing is replaced and the next
  character is copied; no pattern of the script has such a match (lemma
  \<open>script_matches_nonempty\<close>).
\<close>

function re_sub :: "regex \<Rightarrow> (string list \<Rightarrow> error + string) \<Rightarrow> string \<Rightarrow> error + string" where
  "re_sub p f [] = (case rmatch p [] of Some (gs, r) \<Rightarrow> f gs | None \<Rightarrow> Inr [])"
| "re_sub p f (x # xs) =
     (case rmatch p (x # xs) of
        Some (gs, r) \<Rightarrow>
          bind_e (f gs) (\<lambda>t.
            if length r < length (x # xs) then bind_e (re_sub p f r) (\<lambda>u. Inr (t @ u))
            else bind_e (re_sub p f xs) (\<lambda>u. Inr (t @ x # u)))
      | None \<Rightarrow> bind_e (re_sub p f xs) (\<lambda>u. Inr (x # u)))"
  by pat_completeness auto
termination
  by (relation "measure (\<lambda>(p, f, s). length s)") auto

section \<open>The string methods the script uses\<close>

text \<open>\<^verbatim>\<open>needle in text\<close>.\<close>

fun py_in :: "string \<Rightarrow> string \<Rightarrow> bool" where
  "py_in n [] = (n = [])"
| "py_in n (x # xs) = (prefix n (x # xs) \<or> py_in n xs)"

text \<open>
  \<^verbatim>\<open>text.replace(old, new)\<close>: every occurrence of \<^verbatim>\<open>old\<close>, from left to right and without
  overlap; an empty \<^verbatim>\<open>old\<close> stands before every character and at the end.
\<close>

function str_replace :: "string \<Rightarrow> string \<Rightarrow> string \<Rightarrow> string" where
  "str_replace old new [] = (if old = [] then new else [])"
| "str_replace old new (x # xs) =
     (if old = [] then new @ x # str_replace old new xs
      else if prefix old (x # xs) then new @ str_replace old new (drop (length old) (x # xs))
      else x # str_replace old new xs)"
  by pat_completeness auto
termination
  by (relation "measure (\<lambda>(old, new, s). length s)") auto

text \<open>\<^verbatim>\<open>text.strip()\<close>.\<close>

definition str_strip :: "string \<Rightarrow> string" where
  "str_strip s = rev (dropWhile is_space (rev (dropWhile is_space s)))"

section \<open>The three stages\<close>

subsection \<open>\<^verbatim>\<open>convert_method\<close>\<close>

text \<open>
  \<^verbatim>\<open>(\s*)(\w+)\s*=\s*this\.asyncHandler\(async\s*\((.*?)\):\s*Promise<void>\s*=>\s*\{\<close>
  Group 1 is node 0, group 2 is node 1, group 3 is node 8.
\<close>

definition method_pattern :: regex where
  "method_pattern =
     [Star Space, Plus WordC, Star Space, Str ''='', Star Space,
      Str ''this.asyncHandler(async'', Star Space, Str ''('', Lazy AnyButNL, Str ''):'',
      Star Space, Str ''Promise<void>'', Star Space, Str ''=>'', Star Space, Str ''{'']"

definition replace_method :: "string list \<Rightarrow> error + string" where
  "replace_method gs =
     bind_e (group gs 0 1) (\<lambda>indent.
     bind_e (group gs 1 1) (\<lambda>method_name.
     bind_e (group gs 8 1) (\<lambda>params.
       Inr (indent @ ''async '' @ method_name @ ''('' @ params @ ''): Promise<void> {''
            @ [newline] @ indent @ ''  try {''))))"

text \<open>\<^verbatim>\<open>\s*\}\);\s*$\<close> with \<^verbatim>\<open>re.MULTILINE\<close>, and its fixed replacement.\<close>

definition closing_pattern :: regex where
  "closing_pattern = [Star Space, Str ''});'', Star Space, Eol]"

definition closing_text :: string where
  "closing_text = [newline] @ ''    }'' @ [newline] @ ''  }''"

definition convert_method :: "string \<Rightarrow> error + string" where
  "convert_method content =
     bind_e (re_sub method_pattern replace_method content) (\<lambda>content.
       re_sub closing_pattern (\<lambda>gs. Inr closing_text) content)"

subsection \<open>\<^verbatim>\<open>convert_validation_patterns\<close>\<close>

text \<open>\<^verbatim>\<open>@Validate\(\{[^}]*\}\)\s*\n\<close>\<close>

definition validate_pattern :: regex where
  "validate_pattern =
     [Str ''@Validate({'', Star (Not CHR ''}''), Str ''})'', Star Space, Str [newline]]"

text \<open>
  \<^verbatim>\<open>const validation = this\.validateRequest\([^;]*;\s*if \(!validation\.isValid\) \{[^}]*\}\s*\<close>
  (the flag \<^verbatim>\<open>re.DOTALL\<close> changes nothing: the pattern has no dot).
\<close>

definition validation_pattern :: regex where
  "validation_pattern =
     [Str ''const validation = this.validateRequest('', Star (Not CHR '';''), Str '';'',
      Star Space, Str ''if (!validation.isValid) {'', Star (Not CHR ''}''), Str ''}'',
      Star Space]"

definition convert_validation_patterns :: "string \<Rightarrow> error + string" where
  "convert_validation_patterns content =
     bind_e (re_sub validate_pattern (\<lambda>gs. Inr []) content) (\<lambda>content.
       re_sub validation_pattern (\<lambda>gs. Inr []) content)"

subsection \<open>\<^verbatim>\<open>fix_try_blocks\<close> and its substitution in \<^verbatim>\<open>process_file\<close>\<close>

text \<open>\<^verbatim>\<open>(\s*this\.logRequest[^;]*;)\<close>: group 1 is the whole match.\<close>

definition log_pattern :: regex where
  "log_pattern = [Star Space, Str ''this.logRequest'', Star (Not CHR '';''), Str '';'']"

text \<open>
  \<^verbatim>\<open>(\s*)(async \w+\([^)]*\): Promise<void>)\s*\{\s*try\s*\{(.*?)\s*\}\s*\}\<close> with
  \<^verbatim>\<open>re.DOTALL\<close>. Group 1 is node 0, group 2 is nodes 1 to 5, group 3 is node 12.
\<close>

definition try_pattern :: regex where
  "try_pattern =
     [Star Space, Str ''async '', Plus WordC, Str ''('', Star (Not CHR '')''),
      Str ''): Promise<void>'', Star Space, Str ''{'', Star Space, Str ''try'', Star Space,
      Str ''{'', Lazy AnyC, Star Space, Str ''}'', Star Space, Str ''}'']"

definition move_log :: "string \<Rightarrow> string \<Rightarrow> error + string" where
  "move_log indent method_body =
     (if py_in ''this.logRequest'' method_body then
        (case re_search log_pattern method_body of
           Some (pre, (gs, r)) \<Rightarrow>
             bind_e (group gs 0 4) (\<lambda>log_statement.
               let method_body = str_replace log_statement [] method_body
               in Inr ([newline] @ indent @ ''    '' @ str_strip log_statement @ [newline]
                       @ method_body))
         | None \<Rightarrow> Inr method_body)
      else Inr method_body)"

definition fix_try_blocks :: "string list \<Rightarrow> error + string" where
  "fix_try_blocks gs =
     bind_e (group gs 0 1) (\<lambda>indent.
     bind_e (group gs 1 5) (\<lambda>method_signature.
     bind_e (group gs 12 1) (\<lambda>method_body.
     bind_e (move_log indent method_body) (\<lambda>method_body.
       Inr (indent @ method_signature @ '' {'' @ [newline] @ indent @ ''  try {'' @ method_body
            @ [newline] @ indent @ ''  }'' @ [newline] @ indent @ ''}'')))))"

definition fix_try :: "string \<Rightarrow> error + string" where
  "fix_try content = re_sub try_pattern fix_try_blocks content"

text \<open>The text \<^verbatim>\<open>process_file\<close> computes from the content of a file.\<close>

definition pipeline :: "string \<Rightarrow> error + string" where
  "pipeline content =
     bind_e (convert_method content) (\<lambda>content.
     bind_e (convert_validation_patterns content) (\<lambda>content.
       fix_try content))"

section \<open>Files: \<^verbatim>\<open>process_file\<close> and \<^verbatim>\<open>main\<close>\<close>

text \<open>
  The file system is a map from paths to contents. The run leaves a trace: what it
  prints, and the files it opens. The printed lines are
  \<^item> \<open>Processing p\<close>: \<^verbatim>\<open>Processing {filepath}...\<close>
  \<^item> \<open>Updated p\<close>: \<^verbatim>\<open>Updated {filepath}\<close>
  \<^item> \<open>No_changes p\<close>: \<^verbatim>\<open>No changes needed for {filepath}\<close>
  \<^item> \<open>Not_found p\<close>: \<^verbatim>\<open>File not found: {filepath}\<close>
  \<^item> \<open>Summary n\<close>: \<^verbatim>\<open>Successfully updated {n} files:\<close>
  \<^item> \<open>Summary_item p\<close>: \<^verbatim>\<open>  - {filepath}\<close>
  \<^item> \<open>None_updated\<close>: \<^verbatim>\<open>No files were updated\<close>
\<close>

type_synonym path = string

datatype message =
    Processing path
  | Updated path
  | No_changes path
  | Not_found path
  | Summary nat
  | Summary_item path
  | None_updated

datatype event = Print message | Open_read path | Open_write path

record world =
  files :: "path \<rightharpoonup> string"
  trace :: "event list"

definition emit :: "event list \<Rightarrow> world \<Rightarrow> world" where
  "emit es w = w\<lparr>trace := trace w @ es\<rparr>"

definition process_file :: "path \<Rightarrow> world \<Rightarrow> error + (bool \<times> world)" where
  "process_file filepath w =
     (let w = emit [Print (Processing filepath), Open_read filepath] w
      in case files w filepath of
           None \<Rightarrow> Inl FileNotFoundError
         | Some original_content \<Rightarrow>
             bind_e (pipeline original_content) (\<lambda>content.
               if content \<noteq> original_content then
                 Inr (True,
                      emit [Open_write filepath, Print (Updated filepath)]
                        (w\<lparr>files := (files w)(filepath \<mapsto> content)\<rparr>))
               else Inr (False, emit [Print (No_changes filepath)] w)))"

definition controller_files :: "path list" where
  "controller_files =
     [''src/controllers/chat/ChatController.modern.ts'',
      ''src/controllers/provider/ProviderController.modern.ts'',
      ''src/controllers/request/RequestController.modern.ts'',
      ''src/controllers/review/ReviewController.modern.ts'',
      ''src/controllers/user/UserController.modern.ts'']"

text \<open>The loop of \<^verbatim>\<open>main\<close> over the paths; \<^verbatim>\<open>os.path.exists\<close> is the domain of the map.\<close>

fun main_loop :: "path list \<Rightarrow> path list \<Rightarrow> world \<Rightarrow> error + (path list \<times> world)" where
  "main_loop [] updated_files w = Inr (updated_files, w)"
| "main_loop (filepath # rest) updated_files w =
     (if files w filepath \<noteq> None then
        bind_e (process_file filepath w) (\<lambda>(changed, w).
          main_loop rest (if changed then updated_files @ [filepath] else updated_files) w)
      else main_loop rest updated_files (emit [Print (Not_found filepath)] w))"

definition main :: "(path \<rightharpoonup> string) \<Rightarrow> error + world" where
  "main fs =
     bind_e (main_loop controller_files [] \<lparr>files = fs, trace = []\<rparr>) (\<lambda>(updated_files, w).
       if updated_files \<noteq> [] then
         Inr (emit (Print (Summary (length updated_files))
                    # map (\<lambda>filepath. Print (Summary_item filepath)) updated_files) w)
       else Inr (emit [Print None_updated] w))"

section \<open>Notions for the statements\<close>

text \<open>
  The text a node of a pattern may consume.
\<close>

fun seg_ok :: "node \<Rightarrow> string \<Rightarrow> bool" where
  "seg_ok (Str l) g = (g = l)"
| "seg_ok (Star c) g = list_all (cls c) g"
| "seg_ok (Plus c) g = (g \<noteq> [] \<and> list_all (cls c) g)"
| "seg_ok (Lazy c) g = list_all (cls c) g"
| "seg_ok Eol g = (g = [])"

text \<open>
  A match with more text after it.
\<close>

fun ext_rest :: "string \<Rightarrow> rmatch \<Rightarrow> rmatch" where
  "ext_rest T (gs, r) = (gs, r @ T)"

text \<open>
  The text after a match of the closing tokens, when the match ends its line: nothing, or a
  newline before a line that is not empty.
\<close>

definition line_end :: "string \<Rightarrow> bool" where
  "line_end post \<longleftrightarrow>
     post = [] \<or> (\<exists>ws3 c rest. post = newline # ws3 @ c # rest \<and> list_all is_space ws3
                     \<and> newline \<notin> set ws3 \<and> \<not> is_space c)"









section \<open>Example texts\<close>

text \<open>
  The example of the specification, and what the pipeline makes of it in one run and in two.
\<close>

definition example_input :: string where
  "example_input =
     ''create = this.asyncHandler(async (req, res): Promise<void> => {\<newline>'' @
     ''  @Validate({schema: X})\<newline>'' @
     ''  const validation = this.validateRequest(req); if (!validation.isValid) { return; }\<newline>'' @
     ''  this.logRequest(req);\<newline>'' @
     ''  doWork(req, res);\<newline>'' @
     ''});''"

definition example_output :: string where
  "example_output =
     ''async create(req, res): Promise<void> {\<newline>'' @
     ''  try {\<newline>'' @
     ''    this.logRequest(req);\<newline>'' @
     ''\<newline>'' @
     ''  doWork(req, res);\<newline>'' @
     ''  }\<newline>'' @
     ''}''"


text \<open>A text without any of the patterns.\<close>

definition plain_text :: string where
  "plain_text = ''const x = f(1);\<newline>''"

text \<open>
  A call that ends its line with the closing tokens.
\<close>

definition json_call_text :: string where
  "json_call_text = ''res.json({ok: 1});\<newline>next();''"

text \<open>
  An annotation after its indentation, and a validation check with a nested block.
\<close>

definition annotated_text :: string where
  "annotated_text = ''  @Validate({a})\<newline>  foo();''"

definition nested_check_text :: string where
  "nested_check_text =
     ''x; const validation = this.validateRequest(req); if (!validation.isValid) { if (a) { b(); } return; } next();''"

text \<open>
  A method with a logging statement and its match, and a method with two copies of the
  logging statement at different indentations.
\<close>

definition log_method_text :: string where
  "log_method_text = ''async f(): Promise<void> { try { a(); this.logRequest(r); } }''"

definition log_method_match :: "string list" where
  "log_method_match =
     [[], ''async '', ''f'', ''('', [], ''): Promise<void>'', '' '', ''{'', '' '', ''try'', '' '',
      ''{'', '' a(); this.logRequest(r);'', '' '', ''}'', '' '', ''}'']"




text \<open>A file system with one of the configured files.\<close>

definition example_files :: "path \<rightharpoonup> string" where
  "example_files = [''src/controllers/user/UserController.modern.ts'' \<mapsto> ''x});'']"

section \<open>Evaluation of the character classes\<close>

lemma is_space_code [code]:
  "is_space (Char b0 b1 b2 b3 b4 b5 b6 b7) =
     (if b7 then (\<not> b6 \<and> (if b5 then (\<not> b4 \<and> (\<not> b3 \<and> (\<not> b2 \<and> (\<not> b1 \<and> \<not> b0)))) else (\<not> b4 \<and> (\<not> b3 \<and> (b2 \<and> (\<not> b1 \<and> b0)))))) else (\<not> b6 \<and> (if b5 then (\<not> b4 \<and> (\<not> b3 \<and> (\<not> b2 \<and> (\<not> b1 \<and> \<not> b0)))) else (if b4 then (b3 \<and> b2) else (b3 \<and> (if b2 then \<not> b1 else (b1 \<or> b0)))))))"
  by (cases b0; cases b1; cases b2; cases b3; cases b4; cases b5; cases b6; cases b7;
      simp add: is_space_def)

lemma is_word_code [code]:
  "is_word (Char b0 b1 b2 b3 b4 b5 b6 b7) =
     (if b7 then (if b6 then (\<not> b4 \<or> (b3 \<or> (\<not> b2 \<or> (\<not> b1 \<or> \<not> b0)))) else (b5 \<and> (if b4 then (if b3 then (if b2 then (\<not> b1 \<or> \<not> b0) else (if b1 then \<not> b0 else b0)) else (if b2 then (\<not> b1 \<and> b0) else b1)) else (b3 \<and> (\<not> b2 \<and> (b1 \<and> \<not> b0)))))) else (if b6 then (if b5 then (if b4 then (\<not> b3 \<or> (\<not> b2 \<and> (\<not> b1 \<or> \<not> b0))) else (b3 \<or> (b2 \<or> (b1 \<or> b0)))) else (if b4 then (\<not> b3 \<or> (if b2 then (b1 \<and> b0) else (\<not> b1 \<or> \<not> b0))) else (b3 \<or> (b2 \<or> (b1 \<or> b0))))) else (b5 \<and> (b4 \<and> (\<not> b3 \<or> (\<not> b2 \<and> \<not> b1))))))"
  by (cases b0; cases b1; cases b2; cases b3; cases b4; cases b5; cases b6; cases b7;
      simp add: is_word_def)

lemma is_space_newline: "is_space newline"
  by (simp add: is_space_def newline_def)

lemma cls_Space_eq [simp]: "cls Space = is_space"
  by (rule ext) simp

lemma cls_WordC_eq [simp]: "cls WordC = is_word"
  by (rule ext) simp

lemma cls_Not_all: "list_all (cls (Not d)) g \<longleftrightarrow> d \<notin> set g"
  by (induction g) auto

lemma word_not_space: "is_word c \<Longrightarrow> \<not> is_space c"
  unfolding is_word_def is_space_def Let_def by arith

lemma space_not_word: "is_space c \<Longrightarrow> \<not> is_word c"
  using word_not_space by blast


section \<open>Soundness of the matcher and of the search\<close>

lemma rmatch_sound:
  "rmatch p s = Some (gs, r) \<Longrightarrow> list_all2 seg_ok p gs \<and> s = concat gs @ r"
proof (induction p s arbitrary: gs r rule: rmatch.induct)
  case (1 s)
  then show ?case by simp
next
  case (2 l ns s)
  then show ?case
    by (auto split: if_splits simp: prefix_def)
next
  case (3 ns)
  then show ?case by auto
next
  case (4 ns x xs)
  then show ?case by (auto split: if_splits)
next
  case (5 c ns)
  then show ?case by auto
next
  case (6 c ns x xs)
  show ?case
  proof (cases "cls c x \<and> rmatch (Star c # ns) xs \<noteq> None")
    case True
    then obtain gs' r' where m: "rmatch (Star c # ns) xs = Some (gs', r')" by auto
    from "6.IH"(1)[OF _ m] True have ih: "list_all2 seg_ok (Star c # ns) gs'" "xs = concat gs' @ r'"
      by auto
    then obtain g gt where gs': "gs' = g # gt" by (cases gs') auto
    from "6.prems" True m gs' have "gs = (x # g) # gt" "r = r'" by auto
    with ih gs' True show ?thesis by auto
  next
    case False
    with "6.prems" obtain gt where m: "rmatch ns (x # xs) = Some (gt, r)" and gs: "gs = [] # gt"
      by (auto split: if_splits option.splits)
    from False have "cls c x \<Longrightarrow> rmatch (Star c # ns) xs = None" by blast
    with "6.IH"(2)[OF _ _ m] "6.IH"(3)[OF _ m] have "list_all2 seg_ok ns gt \<and> x # xs = concat gt @ r"
      by (cases "cls c x") auto
    with gs show ?thesis by auto
  qed
next
  case (7 c ns)
  then show ?case by simp
next
  case (8 c ns x xs)
  from "8.prems" obtain gs' r' where c: "cls c x" and m: "rmatch (Star c # ns) xs = Some (gs', r')"
    and e: "(gs, r) = cons_first x (gs', r')"
    by (auto split: if_splits)
  from "8.IH"[OF c m] have ih: "list_all2 seg_ok (Star c # ns) gs'" "xs = concat gs' @ r'" by auto
  then obtain g gt where gs': "gs' = g # gt" by (cases gs') auto
  with e have "gs = (x # g) # gt" "r = r'" by auto
  with ih gs' c show ?case by auto
next
  case (9 c ns)
  then show ?case by auto
next
  case (10 c ns x xs)
  show ?case
  proof (cases "rmatch ns (x # xs)")
    case (Some m)
    with "10.prems" obtain gt where m: "rmatch ns (x # xs) = Some (gt, r)" and gs: "gs = [] # gt"
      by (cases m) auto
    from "10.IH"(1)[OF m] gs show ?thesis by auto
  next
    case None
    with "10.prems" obtain gs' r' where c: "cls c x" and m: "rmatch (Lazy c # ns) xs = Some (gs', r')"
      and e: "(gs, r) = cons_first x (gs', r')"
      by (auto split: if_splits)
    from "10.IH"(2)[OF None c m] have ih: "list_all2 seg_ok (Lazy c # ns) gs'" "xs = concat gs' @ r'" by auto
    then obtain g gt where gs': "gs' = g # gt" by (cases gs') auto
    with e have "gs = (x # g) # gt" "r = r'" by auto
    with ih gs' c show ?thesis by auto
  qed
qed

lemma rmatch_length: "rmatch p s = Some (gs, r) \<Longrightarrow> length gs = length p"
  using rmatch_sound[of p s gs r] by (auto dest: list_all2_lengthD)

lemma rmatch_nonempty:
  "rmatch p t = Some (gs, r) \<Longrightarrow> \<exists>l\<in>set p. (\<exists>x xs. l = Str (x # xs)) \<Longrightarrow> length r < length t"
proof -
  assume m: "rmatch p t = Some (gs, r)" and l: "\<exists>l\<in>set p. (\<exists>x xs. l = Str (x # xs))"
  from rmatch_sound[OF m] have a: "list_all2 seg_ok p gs" "t = concat gs @ r" by auto
  from l obtain i x xs where i: "i < length p" "p ! i = Str (x # xs)"
    by (auto simp: in_set_conv_nth)
  with a(1) have "gs ! i = x # xs" "i < length gs"
    by (auto simp: list_all2_conv_all_nth)
  then have "x # xs \<in> set gs" by (metis nth_mem)
  then have "concat gs \<noteq> []" by auto
  with a(2) show ?thesis by (cases "concat gs") auto
qed

lemma script_matches_nonempty:
  assumes "p \<in> {method_pattern, closing_pattern, validate_pattern, validation_pattern,
                try_pattern, log_pattern}"
    and "rmatch p t = Some (gs, r)"
  shows "length r < length t"
  using assms(1)
  by (intro rmatch_nonempty[OF assms(2)])
     (auto simp: method_pattern_def closing_pattern_def validate_pattern_def
        validation_pattern_def try_pattern_def log_pattern_def)

lemma rmatch_needs_char:
  assumes "Str l \<in> set p" "c \<in> set l" "c \<notin> set t"
  shows "rmatch p t = None"
proof (cases "rmatch p t")
  case (Some m)
  obtain gs r where m: "m = (gs, r)" by (cases m)
  from rmatch_sound[of p t gs r] Some m have a: "list_all2 seg_ok p gs" "t = concat gs @ r" by auto
  from assms(1) obtain i where i: "i < length p" "p ! i = Str l" by (auto simp: in_set_conv_nth)
  with a(1) have "gs ! i = l" "i < length gs" by (auto simp: list_all2_conv_all_nth)
  then have "l \<in> set gs" by (metis nth_mem)
  with assms(2) a(2) have "c \<in> set t" by auto
  with assms(3) show ?thesis by simp
qed simp

lemma re_search_None_Cons: "re_search p (x # xs) = None \<Longrightarrow> re_search p xs = None \<and> rmatch p (x # xs) = None"
  by (auto split: option.splits)

lemma re_search_sound:
  "re_search p s = Some (pre, (gs, r)) \<Longrightarrow> s = pre @ concat gs @ r \<and> length gs = length p"
proof (induction s arbitrary: pre)
  case Nil
  then show ?case by (auto dest: rmatch_sound rmatch_length)
next
  case (Cons x xs)
  show ?case
  proof (cases "rmatch p (x # xs)")
    case None
    with Cons.prems obtain pre' where "re_search p xs = Some (pre', (gs, r))" "pre = x # pre'"
      by auto
    with Cons.IH show ?thesis by auto
  next
    case (Some m)
    with Cons.prems have "rmatch p (x # xs) = Some (gs, r)" "pre = []" by auto
    then show ?thesis using rmatch_sound[of p "x # xs" gs r] rmatch_length[of p "x # xs" gs r] by auto
  qed
qed

lemma re_search_first:
  "re_search p t = Some (pre, (gs, r)) \<Longrightarrow>
   t = pre @ concat gs @ r \<and> rmatch p (concat gs @ r) = Some (gs, r)
   \<and> (\<forall>u v. pre = u @ v \<longrightarrow> v \<noteq> [] \<longrightarrow> rmatch p (v @ concat gs @ r) = None)"
proof (induction t arbitrary: pre)
  case Nil
  then have m: "rmatch p [] = Some (gs, r)" "pre = []" by auto
  from rmatch_sound[OF m(1)] have e: "concat gs @ r = []" by simp
  have "rmatch p (concat gs @ r) = Some (gs, r)" unfolding e by (rule m(1))
  moreover have "[] = pre @ concat gs @ r" unfolding e using m(2) by simp
  ultimately show ?case using m(2) by simp
next
  case (Cons x xs)
  show ?case
  proof (cases "rmatch p (x # xs)")
    case None
    with Cons.prems obtain pre' where p': "re_search p xs = Some (pre', (gs, r))" "pre = x # pre'"
      by auto
    from Cons.IH[OF p'(1)] have ih: "xs = pre' @ concat gs @ r"
      "rmatch p (concat gs @ r) = Some (gs, r)"
      "\<forall>u v. pre' = u @ v \<longrightarrow> v \<noteq> [] \<longrightarrow> rmatch p (v @ concat gs @ r) = None" by auto
    have "rmatch p (v @ concat gs @ r) = None" if "pre = u @ v" "v \<noteq> []" for u v
    proof (cases u)
      case Nil
      with that p'(2) have "v = x # pre'" by simp
      with ih(1) None show ?thesis by simp
    next
      case (Cons y u')
      with that p'(2) ih(3) show ?thesis by simp
    qed
    with ih p'(2) show ?thesis by simp
  next
    case (Some m)
    with Cons.prems have "rmatch p (x # xs) = Some (gs, r)" "pre = []" by auto
    then show ?thesis using rmatch_sound[of p "x # xs" gs r] by auto
  qed
qed

lemma re_search_needs_char:
  assumes "Str l \<in> set p" "c \<in> set l" "c \<notin> set t"
  shows "re_search p t = None"
  using assms(3)
proof (induction t)
  case Nil
  then show ?case using rmatch_needs_char[OF assms(1,2), of "[]"] by simp
next
  case (Cons x xs)
  then show ?case using rmatch_needs_char[OF assms(1,2), of "x # xs"] by simp
qed

section \<open>The error monad and the substitution\<close>

lemma bind_e_Inr_id: "bind_e m (\<lambda>b. Inr b) = m"
  by (cases m) auto



lemma re_sub_no_match: "re_search p s = None \<Longrightarrow> re_sub p f s = Inr s"
  by (induction s) (auto split: option.splits)

lemma re_sub_skip:
  assumes "\<And>u v. pre = u @ v \<Longrightarrow> v \<noteq> [] \<Longrightarrow> rmatch p (v @ t) = None"
  shows "re_sub p f (pre @ t) = bind_e (re_sub p f t) (\<lambda>u. Inr (pre @ u))"
  using assms
proof (induction pre)
  case Nil
  show ?case by (cases "re_sub p f t") auto
next
  case (Cons x pre)
  have n: "rmatch p (x # pre @ t) = None" using Cons.prems[of "[]" "x # pre"] by simp
  have "re_sub p f (pre @ t) = bind_e (re_sub p f t) (\<lambda>u. Inr (pre @ u))"
  proof (rule Cons.IH)
    fix u v assume "pre = u @ v" "v \<noteq> []"
    then show "rmatch p (v @ t) = None" using Cons.prems[of "x # u" v] by simp
  qed
  with n show ?case by (cases "re_sub p f t") auto
qed

lemma re_sub_match:
  assumes "rmatch p t = Some (gs, r)" "length r < length t" "f gs = Inr rep"
  shows "re_sub p f t = bind_e (re_sub p f r) (\<lambda>u. Inr (rep @ u))"
  using assms by (cases t) auto

lemma re_sub_first:
  assumes "re_search p t = Some (pre, (gs, r))" "concat gs \<noteq> []" "f gs = Inr rep"
  shows "re_sub p f t = bind_e (re_sub p f r) (\<lambda>u. Inr (pre @ rep @ u))"
proof -
  from re_search_first[OF assms(1)] have t: "t = pre @ concat gs @ r"
    and m: "rmatch p (concat gs @ r) = Some (gs, r)"
    and n: "\<And>u v. pre = u @ v \<Longrightarrow> v \<noteq> [] \<Longrightarrow> rmatch p (v @ concat gs @ r) = None"
    by auto
  from assms(2) have l: "length r < length (concat gs @ r)" by simp
  have "re_sub p f t = bind_e (re_sub p f (concat gs @ r)) (\<lambda>u. Inr (pre @ u))"
    unfolding t by (rule re_sub_skip) (rule n)
  also have "re_sub p f (concat gs @ r) = bind_e (re_sub p f r) (\<lambda>u. Inr (rep @ u))"
    using re_sub_match[of p "concat gs @ r" gs r f rep, OF m l assms(3)] .
  finally show ?thesis by (cases "re_sub p f r") auto
qed

lemma ext_rest_cons_first: "ext_rest T (cons_first x m) = cons_first x (ext_rest T m)"
  by (cases m; cases "fst m") auto

lemma ext_rest_add_seg: "ext_rest T (add_seg l m) = add_seg l (ext_rest T m)"
  by (cases m) auto

lemma re_sub_split:
  assumes ne: "\<And>t gs r. rmatch p t = Some (gs, r) \<Longrightarrow> length r < length t"
    and indep: "\<And>u v. pre = u @ v \<Longrightarrow> v \<noteq> [] \<Longrightarrow>
                  rmatch p (v @ T) = map_option (ext_rest T) (rmatch p v)"
  shows "re_sub p f (pre @ T) = bind_e (re_sub p f pre) (\<lambda>a. bind_e (re_sub p f T) (\<lambda>b. Inr (a @ b)))"
  using indep
proof (induction "length pre" arbitrary: pre rule: less_induct)
  case less
  show ?case
  proof (cases pre)
    case Nil
    have "rmatch p [] = None"
    proof (cases "rmatch p []")
      case (Some m)
      with ne[of "[]" "fst m" "snd m"] show ?thesis by simp
    qed simp
    with Nil show ?thesis by (simp add: bind_e_Inr_id)
  next
    case (Cons x w)
    have ctx: "rmatch p (pre @ T) = map_option (ext_rest T) (rmatch p pre)"
      using less.prems[of "[]" pre] Cons by simp
    show ?thesis
    proof (cases "rmatch p pre")
      case None
      have ih: "re_sub p f (w @ T) = bind_e (re_sub p f w) (\<lambda>a. bind_e (re_sub p f T) (\<lambda>b. Inr (a @ b)))"
      proof (rule less.hyps)
        show "length w < length pre" using Cons by simp
        fix u v assume "w = u @ v" "v \<noteq> []"
        then show "rmatch p (v @ T) = map_option (ext_rest T) (rmatch p v)"
          using less.prems[of "x # u" v] Cons by simp
      qed
      from None ctx Cons have "rmatch p (x # w @ T) = None" "rmatch p (x # w) = None" by auto
      then show ?thesis using Cons ih
        by (cases "re_sub p f w"; cases "re_sub p f T") auto
    next
      case (Some m)
      obtain gs r where m: "m = (gs, r)" by (cases m)
      from rmatch_sound[of p pre gs r] Some m have pre: "pre = concat gs @ r" by simp
      from ne[of pre gs r] Some m have lr: "length r < length pre" by simp
      have ih: "re_sub p f (r @ T) = bind_e (re_sub p f r) (\<lambda>a. bind_e (re_sub p f T) (\<lambda>b. Inr (a @ b)))"
      proof (rule less.hyps[OF lr])
        fix u v assume "r = u @ v" "v \<noteq> []"
        then show "rmatch p (v @ T) = map_option (ext_rest T) (rmatch p v)"
          using less.prems[of "concat gs @ u" v] pre by simp
      qed
      from Some m ctx Cons have 1: "rmatch p (x # w @ T) = Some (gs, r @ T)"
        and 2: "rmatch p (x # w) = Some (gs, r)" by auto
      from lr Cons have 3: "length r < Suc (length w)" by simp
      show ?thesis using Cons 1 2 3 ih
        by (cases "f gs"; cases "re_sub p f r"; cases "re_sub p f T") auto
    qed
  qed
qed

section \<open>Totality of the stages\<close>

lemma re_sub_total:
  assumes "\<And>gs r s'. rmatch p s' = Some (gs, r) \<Longrightarrow> \<exists>t. f gs = Inr t"
  shows "\<exists>t. re_sub p f s = Inr t"
proof (induction "length s" arbitrary: s rule: less_induct)
  case less
  show ?case
  proof (cases s)
    case Nil
    then show ?thesis using assms by (auto split: option.splits)
  next
    case (Cons x xs)
    from less[of xs] Cons obtain u where u: "re_sub p f xs = Inr u" by auto
    show ?thesis
    proof (cases "rmatch p (x # xs)")
      case None
      with u Cons show ?thesis by simp
    next
      case (Some m)
      obtain gs r where m: "m = (gs, r)" by (cases m)
      from assms Some m obtain t where t: "f gs = Inr t" by blast
      show ?thesis
      proof (cases "length r < length (x # xs)")
        case True
        with less[of r] Cons obtain v where "re_sub p f r = Inr v" by auto
        with Some m t True Cons show ?thesis by simp
      next
        case False
        with Some m t u Cons show ?thesis by simp
      qed
    qed
  qed
qed

lemma group_ok: "i + k \<le> length gs \<Longrightarrow> group gs i k = Inr (concat (take k (drop i gs)))"
  by (simp add: group_def)

lemma replace_method_total:
  "rmatch method_pattern s = Some (gs, r) \<Longrightarrow> \<exists>t. replace_method gs = Inr t"
  by (drule rmatch_length) (simp add: method_pattern_def replace_method_def group_ok)

lemma move_log_total: "\<exists>t. move_log indent body = Inr t"
proof (cases "re_search log_pattern body")
  case None
  then show ?thesis by (simp add: move_log_def)
next
  case (Some a)
  obtain pre gs r where a: "a = (pre, (gs, r))" by (cases a) auto
  with Some have "length gs = 4" by (auto dest: re_search_sound simp: log_pattern_def)
  with Some a show ?thesis by (simp add: move_log_def group_ok)
qed

lemma fix_try_blocks_total:
  assumes "rmatch try_pattern s = Some (gs, r)"
  shows "\<exists>t. fix_try_blocks gs = Inr t"
proof -
  from assms have l: "length gs = 17" by (auto dest: rmatch_length simp: try_pattern_def)
  obtain b where "move_log (concat (take 1 (drop 0 gs))) (concat (take 1 (drop 12 gs))) = Inr b"
    using move_log_total by blast
  with l show ?thesis by (simp add: fix_try_blocks_def group_ok)
qed

lemma convert_method_total: "\<exists>t. convert_method s = Inr t"
proof -
  obtain u where u: "re_sub method_pattern replace_method s = Inr u"
    using re_sub_total[of method_pattern replace_method s] replace_method_total by blast
  obtain v where "re_sub closing_pattern (\<lambda>gs. Inr closing_text) u = Inr v"
    using re_sub_total[of closing_pattern "\<lambda>gs. Inr closing_text" u] by blast
  with u show ?thesis by (simp add: convert_method_def)
qed

lemma convert_validation_patterns_total: "\<exists>t. convert_validation_patterns s = Inr t"
proof -
  obtain u where u: "re_sub validate_pattern (\<lambda>gs. Inr []) s = Inr u"
    using re_sub_total[of validate_pattern "\<lambda>gs. Inr []" s] by blast
  obtain v where "re_sub validation_pattern (\<lambda>gs. Inr []) u = Inr v"
    using re_sub_total[of validation_pattern "\<lambda>gs. Inr []" u] by blast
  with u show ?thesis by (simp add: convert_validation_patterns_def)
qed

lemma fix_try_total: "\<exists>t. fix_try s = Inr t"
  unfolding fix_try_def using re_sub_total[of try_pattern fix_try_blocks s] fix_try_blocks_total
  by blast

lemma pipeline_total: "\<exists>t. pipeline s = Inr t"
proof -
  obtain a where a: "convert_method s = Inr a" using convert_method_total by blast
  obtain b where b: "convert_validation_patterns a = Inr b"
    using convert_validation_patterns_total by blast
  obtain c where "fix_try b = Inr c" using fix_try_total by blast
  with a b show ?thesis by (simp add: pipeline_def)
qed

section \<open>The run over the files\<close>

lemma process_file_ok:
  assumes "files w p = Some c"
  shows "\<exists>changed w' c' es. process_file p w = Inr (changed, w') \<and> pipeline c = Inr c'
           \<and> files w' = (files w)(p \<mapsto> c') \<and> trace w' = trace w @ es
           \<and> Print (Processing p) \<in> set es \<and> Open_read p \<in> set es
           \<and> (\<forall>q. Open_read q \<in> set es \<or> Open_write q \<in> set es \<or> Print (Not_found q) \<in> set es \<longrightarrow> q = p)"
proof -
  obtain c' where c': "pipeline c = Inr c'" using pipeline_total by blast
  let ?w1 = "emit [Print (Processing p), Open_read p] w"
  show ?thesis
  proof (cases "c' = c")
    case True
    let ?w' = "emit [Print (No_changes p)] ?w1"
    let ?es = "[Print (Processing p), Open_read p, Print (No_changes p)]"
    have 1: "process_file p w = Inr (False, ?w')"
      using assms c' True by (simp add: process_file_def emit_def)
    have 2: "files ?w' = (files w)(p \<mapsto> c')"
      using assms True by (simp add: emit_def fun_upd_idem)
    have 3: "trace ?w' = trace w @ ?es" by (simp add: emit_def)
    show ?thesis
      apply (rule exI[of _ False], rule exI[of _ ?w'], rule exI[of _ c'], rule exI[of _ ?es])
      using 1 2 3 c' by simp
  next
    case False
    let ?w' = "emit [Open_write p, Print (Updated p)] (?w1\<lparr>files := (files ?w1)(p \<mapsto> c')\<rparr>)"
    let ?es = "[Print (Processing p), Open_read p, Open_write p, Print (Updated p)]"
    have 1: "process_file p w = Inr (True, ?w')"
      using assms c' False by (simp add: process_file_def emit_def)
    have 2: "files ?w' = (files w)(p \<mapsto> c')"
      by (simp add: emit_def)
    have 3: "trace ?w' = trace w @ ?es" by (simp add: emit_def)
    show ?thesis
      apply (rule exI[of _ True], rule exI[of _ ?w'], rule exI[of _ c'], rule exI[of _ ?es])
      using 1 2 3 c' by simp
  qed
qed

lemma main_loop_None:
  "files w p = None \<Longrightarrow>
   main_loop (p # ps) upd w = main_loop ps upd (emit [Print (Not_found p)] w)"
  by simp

lemma main_loop_Some:
  assumes "files w p = Some c"
  obtains changed w1 c1 es where
    "main_loop (p # ps) upd w = main_loop ps (if changed then upd @ [p] else upd) w1"
    "pipeline c = Inr c1" "files w1 = (files w)(p \<mapsto> c1)" "trace w1 = trace w @ es"
    "Print (Processing p) \<in> set es" "Open_read p \<in> set es"
    "\<And>q. Open_read q \<in> set es \<or> Open_write q \<in> set es \<or> Print (Not_found q) \<in> set es \<Longrightarrow> q = p"
proof -
  from process_file_ok[OF assms] obtain changed w1 c1 es where
    pf: "process_file p w = Inr (changed, w1)" "pipeline c = Inr c1"
        "files w1 = (files w)(p \<mapsto> c1)" "trace w1 = trace w @ es"
        "Print (Processing p) \<in> set es" "Open_read p \<in> set es"
        "\<forall>q. Open_read q \<in> set es \<or> Open_write q \<in> set es \<or> Print (Not_found q) \<in> set es \<longrightarrow> q = p"
    by blast
  have "main_loop (p # ps) upd w = main_loop ps (if changed then upd @ [p] else upd) w1"
    using assms pf(1) by simp
  with pf show thesis using that by blast
qed

lemma main_loop_total: "\<exists>r. main_loop ps upd w = Inr r"
proof (induction ps arbitrary: upd w)
  case Nil
  show ?case by simp
next
  case (Cons p ps)
  show ?case
  proof (cases "files w p")
    case None
    then show ?thesis using Cons.IH by (simp only: main_loop_None)
  next
    case (Some c)
    then obtain changed w1 where
      "main_loop (p # ps) upd w = main_loop ps (if changed then upd @ [p] else upd) w1"
      by (rule main_loop_Some)
    then show ?thesis using Cons.IH by simp
  qed
qed

lemma main_loop_trace_mono:
  "main_loop ps upd w = Inr (upd', w') \<Longrightarrow> set (trace w) \<subseteq> set (trace w')"
proof (induction ps arbitrary: upd w)
  case Nil
  then show ?case by simp
next
  case (Cons p ps)
  show ?case
  proof (cases "files w p")
    case None
    with Cons.prems have "main_loop ps upd (emit [Print (Not_found p)] w) = Inr (upd', w')"
      by (simp only: main_loop_None)
    from Cons.IH[OF this] show ?thesis by (simp add: emit_def)
  next
    case (Some c)
    then obtain changed w1 c1 es where
      e: "main_loop (p # ps) upd w = main_loop ps (if changed then upd @ [p] else upd) w1"
      and t: "trace w1 = trace w @ es"
      by (rule main_loop_Some)
    from e Cons.prems have "main_loop ps (if changed then upd @ [p] else upd) w1 = Inr (upd', w')"
      by simp
    from Cons.IH[OF this] t show ?thesis by simp
  qed
qed

lemma main_loop_files_None:
  "main_loop ps upd w = Inr (upd', w') \<Longrightarrow> (files w' q = None) = (files w q = None)"
proof (induction ps arbitrary: upd w)
  case Nil
  then show ?case by simp
next
  case (Cons p ps)
  show ?case
  proof (cases "files w p")
    case None
    with Cons.prems have "main_loop ps upd (emit [Print (Not_found p)] w) = Inr (upd', w')"
      by (simp only: main_loop_None)
    from Cons.IH[OF this] show ?thesis by (simp add: emit_def)
  next
    case (Some c)
    then obtain changed w1 c1 es where
      e: "main_loop (p # ps) upd w = main_loop ps (if changed then upd @ [p] else upd) w1"
      and f: "files w1 = (files w)(p \<mapsto> c1)"
      by (rule main_loop_Some)
    from e Cons.prems have "main_loop ps (if changed then upd @ [p] else upd) w1 = Inr (upd', w')"
      by simp
    from Cons.IH[OF this] f Some show ?thesis by auto
  qed
qed

lemma main_loop_files_other:
  "main_loop ps upd w = Inr (upd', w') \<Longrightarrow> q \<notin> set ps \<Longrightarrow> files w' q = files w q"
proof (induction ps arbitrary: upd w)
  case Nil
  then show ?case by simp
next
  case (Cons p ps)
  from Cons.prems(2) have q: "q \<noteq> p" "q \<notin> set ps" by auto
  show ?case
  proof (cases "files w p")
    case None
    with Cons.prems have "main_loop ps upd (emit [Print (Not_found p)] w) = Inr (upd', w')"
      by (simp only: main_loop_None)
    from Cons.IH[OF this q(2)] show ?thesis by (simp add: emit_def)
  next
    case (Some c)
    then obtain changed w1 c1 es where
      e: "main_loop (p # ps) upd w = main_loop ps (if changed then upd @ [p] else upd) w1"
      and f: "files w1 = (files w)(p \<mapsto> c1)"
      by (rule main_loop_Some)
    from e Cons.prems have "main_loop ps (if changed then upd @ [p] else upd) w1 = Inr (upd', w')"
      by simp
    from Cons.IH[OF this q(2)] f q(1) show ?thesis by simp
  qed
qed

lemma main_loop_opens:
  "main_loop ps upd w = Inr (upd', w') \<Longrightarrow>
   Open_read q \<in> set (trace w') \<or> Open_write q \<in> set (trace w') \<Longrightarrow>
   Open_read q \<in> set (trace w) \<or> Open_write q \<in> set (trace w) \<or> (q \<in> set ps \<and> files w q \<noteq> None)"
proof (induction ps arbitrary: upd w)
  case Nil
  then show ?case by simp
next
  case (Cons p ps)
  show ?case
  proof (cases "files w p")
    case None
    with Cons.prems have "main_loop ps upd (emit [Print (Not_found p)] w) = Inr (upd', w')"
      by (simp only: main_loop_None)
    from Cons.IH[OF this Cons.prems(2)] show ?thesis by (auto simp: emit_def)
  next
    case (Some c)
    then obtain changed w1 c1 es where
      e: "main_loop (p # ps) upd w = main_loop ps (if changed then upd @ [p] else upd) w1"
      and f: "files w1 = (files w)(p \<mapsto> c1)" and t: "trace w1 = trace w @ es"
      and o: "\<And>q. Open_read q \<in> set es \<or> Open_write q \<in> set es \<or> Print (Not_found q) \<in> set es \<Longrightarrow> q = p"
      by (rule main_loop_Some[where ps=ps and upd=upd]) blast
    from e Cons.prems have "main_loop ps (if changed then upd @ [p] else upd) w1 = Inr (upd', w')"
      by simp
    from Cons.IH[OF this Cons.prems(2)]
    have "Open_read q \<in> set (trace w1) \<or> Open_write q \<in> set (trace w1) \<or> (q \<in> set ps \<and> files w1 q \<noteq> None)" .
    then show ?thesis
    proof (elim disjE)
      assume "Open_read q \<in> set (trace w1)"
      with t o[of q] Some show ?thesis by auto
    next
      assume "Open_write q \<in> set (trace w1)"
      with t o[of q] Some show ?thesis by auto
    next
      assume "q \<in> set ps \<and> files w1 q \<noteq> None"
      with f Some show ?thesis by (cases "q = p") auto
    qed
  qed
qed

lemma main_loop_missing:
  "main_loop ps upd w = Inr (upd', w') \<Longrightarrow> q \<in> set ps \<Longrightarrow> files w q = None \<Longrightarrow>
   Print (Not_found q) \<in> set (trace w')"
proof (induction ps arbitrary: upd w)
  case Nil
  then show ?case by simp
next
  case (Cons p ps)
  show ?case
  proof (cases "files w p")
    case None
    with Cons.prems have m: "main_loop ps upd (emit [Print (Not_found p)] w) = Inr (upd', w')"
      by (simp only: main_loop_None)
    show ?thesis
    proof (cases "q = p")
      case True
      with main_loop_trace_mono[OF m] show ?thesis by (auto simp: emit_def)
    next
      case False
      with Cons.prems have "q \<in> set ps" by simp
      from Cons.IH[OF m this] Cons.prems(3) show ?thesis by (simp add: emit_def)
    qed
  next
    case (Some c)
    then obtain changed w1 c1 es where
      e: "main_loop (p # ps) upd w = main_loop ps (if changed then upd @ [p] else upd) w1"
      and f: "files w1 = (files w)(p \<mapsto> c1)"
      by (rule main_loop_Some)
    from e Cons.prems have m: "main_loop ps (if changed then upd @ [p] else upd) w1 = Inr (upd', w')"
      by simp
    from Some Cons.prems have "q \<noteq> p" "q \<in> set ps" by auto
    with Cons.IH[OF m] f Cons.prems(3) show ?thesis by simp
  qed
qed

lemma main_loop_present:
  "main_loop ps upd w = Inr (upd', w') \<Longrightarrow> q \<in> set ps \<Longrightarrow> files w q \<noteq> None \<Longrightarrow>
   Print (Processing q) \<in> set (trace w') \<and> Open_read q \<in> set (trace w')"
proof (induction ps arbitrary: upd w)
  case Nil
  then show ?case by simp
next
  case (Cons p ps)
  show ?case
  proof (cases "files w p")
    case None
    with Cons.prems have m: "main_loop ps upd (emit [Print (Not_found p)] w) = Inr (upd', w')"
      by (simp only: main_loop_None)
    from None Cons.prems have "q \<in> set ps" by auto
    from Cons.IH[OF m this] Cons.prems(3) show ?thesis by (simp add: emit_def)
  next
    case (Some c)
    then obtain changed w1 c1 es where
      e: "main_loop (p # ps) upd w = main_loop ps (if changed then upd @ [p] else upd) w1"
      and f: "files w1 = (files w)(p \<mapsto> c1)" and t: "trace w1 = trace w @ es"
      and i: "Print (Processing p) \<in> set es" "Open_read p \<in> set es"
      by (rule main_loop_Some)
    from e Cons.prems have m: "main_loop ps (if changed then upd @ [p] else upd) w1 = Inr (upd', w')"
      by simp
    show ?thesis
    proof (cases "q = p")
      case True
      with main_loop_trace_mono[OF m] t i show ?thesis by auto
    next
      case False
      with Cons.prems have "q \<in> set ps" by simp
      from Cons.IH[OF m this] f False Cons.prems(3) show ?thesis by simp
    qed
  qed
qed

lemma main_loop_content:
  "main_loop ps upd w = Inr (upd', w') \<Longrightarrow> distinct ps \<Longrightarrow> q \<in> set ps \<Longrightarrow>
   files w q = Some c \<Longrightarrow> \<exists>c'. pipeline c = Inr c' \<and> files w' q = Some c'"
proof (induction ps arbitrary: upd w)
  case Nil
  then show ?case by simp
next
  case (Cons p ps)
  from Cons.prems(2) have d: "distinct ps" "p \<notin> set ps" by auto
  show ?case
  proof (cases "files w p")
    case None
    with Cons.prems have m: "main_loop ps upd (emit [Print (Not_found p)] w) = Inr (upd', w')"
      by (simp only: main_loop_None)
    from None Cons.prems have "q \<in> set ps" by auto
    from Cons.IH[OF m d(1) this] Cons.prems(4) show ?thesis by (simp add: emit_def)
  next
    case (Some c0)
    then obtain changed w1 c1 es where
      e: "main_loop (p # ps) upd w = main_loop ps (if changed then upd @ [p] else upd) w1"
      and pc: "pipeline c0 = Inr c1"
      and f: "files w1 = (files w)(p \<mapsto> c1)"
      by (rule main_loop_Some)
    from e Cons.prems have m: "main_loop ps (if changed then upd @ [p] else upd) w1 = Inr (upd', w')"
      by simp
    show ?thesis
    proof (cases "q = p")
      case True
      from main_loop_files_other[OF m d(2)] f have "files w' p = Some c1" by simp
      with True Some Cons.prems(4) pc show ?thesis by simp
    next
      case False
      with Cons.prems have "q \<in> set ps" by simp
      from Cons.IH[OF m d(1) this] f False Cons.prems(4) show ?thesis by simp
    qed
  qed
qed

lemma controller_files_distinct: "distinct controller_files"
  by (simp add: controller_files_def)

section \<open>Matching a text of a known shape\<close>

lemma rmatch_Str_append:
  "rmatch (Str l # ns) (l @ t) = map_option (add_seg l) (rmatch ns t)"
  by simp

lemma rmatch_Star_stop:
  "t = [] \<or> \<not> cls c (hd t) \<Longrightarrow> rmatch (Star c # ns) t = map_option (add_seg []) (rmatch ns t)"
  by (cases t) auto

lemma rmatch_Star_take:
  "list_all (cls c) g \<Longrightarrow> rmatch (Star c # ns) t = Some (g' # gs, r) \<Longrightarrow>
   rmatch (Star c # ns) (g @ t) = Some ((g @ g') # gs, r)"
  by (induction g) auto

lemma rmatch_Star_run:
  assumes "list_all (cls c) g" "t = [] \<or> \<not> cls c (hd t)" "rmatch ns t = Some (gs, r)"
  shows "rmatch (Star c # ns) (g @ t) = Some (g # gs, r)"
proof -
  from assms(2,3) have "rmatch (Star c # ns) t = Some ([] # gs, r)"
    by (simp add: rmatch_Star_stop)
  from rmatch_Star_take[OF assms(1) this] show ?thesis by simp
qed





lemma star_last: "rmatch [Star c] t = Some (gs, r) \<Longrightarrow> r = [] \<or> \<not> cls c (hd r)"
proof (induction t arbitrary: gs)
  case Nil
  then show ?case by auto
next
  case (Cons x xs)
  show ?case
  proof (cases "cls c x")
    case True
    show ?thesis
    proof (cases "rmatch [Star c] xs")
      case None
      with Cons.prems True have False
        by (cases xs) (auto split: if_splits option.splits)
      then show ?thesis ..
    next
      case (Some m)
      obtain gs' r' where m: "m = (gs', r')" by (cases m)
      with Some Cons.prems True have "r = r'" by (cases gs') auto
      with Cons.IH[of gs'] Some m show ?thesis by simp
    qed
  next
    case False
    with Cons.prems show ?thesis by auto
  qed
qed

lemma rmatch_last_star:
  "rmatch p t = Some (gs, r) \<Longrightarrow> p \<noteq> [] \<Longrightarrow> last p = Star c \<Longrightarrow> r = [] \<or> \<not> cls c (hd r)"
proof (induction p t arbitrary: gs rule: rmatch.induct)
  case (1 s)
  then show ?case by simp
next
  case (2 l ns s)
  then show ?case by (auto split: if_splits)
next
  case (3 ns)
  then show ?case by (auto split: if_splits)
next
  case (4 ns x xs)
  then show ?case by (auto split: if_splits)
next
  case (5 c' ns)
  then show ?case by (auto split: if_splits)
next
  case (6 c' ns x xs)
  show ?case
  proof (cases "ns = []")
    case True
    with "6.prems" have "c' = c" by simp
    with "6.prems"(1) True have "rmatch [Star c] (x # xs) = Some (gs, r)"
      by (simp del: rmatch.simps)
    then show ?thesis by (rule star_last)
  next
    case False
    with "6.prems" have l: "last ns = Star c" "last (Star c' # ns) = Star c" by auto
    show ?thesis
    proof (cases "cls c' x \<and> rmatch (Star c' # ns) xs \<noteq> None")
      case True
      then obtain gs' r' where m: "rmatch (Star c' # ns) xs = Some (gs', r')" by auto
      from rmatch_length[OF m] obtain g gt where gs': "gs' = g # gt" by (cases gs') auto
      from "6.prems"(1) True m gs' have "r = r'" by auto
      with "6.IH"(1)[of gs'] True m l show ?thesis by simp
    next
      case False
      then have f: "cls c' x \<Longrightarrow> rmatch (Star c' # ns) xs = None" by blast
      with "6.prems"(1) obtain gt where m: "rmatch ns (x # xs) = Some (gt, r)"
        by (auto split: if_splits option.splits)
      show ?thesis
      proof (cases "cls c' x")
        case True
        from "6.IH"(2)[OF True f[OF True] m \<open>ns \<noteq> []\<close> l(1)] show ?thesis .
      next
        case False
        from "6.IH"(3)[OF False m \<open>ns \<noteq> []\<close> l(1)] show ?thesis .
      qed
    qed
  qed
next
  case (7 c' ns)
  then show ?case by simp
next
  case (8 c' ns x xs)
  from "8.prems"(1) obtain gs' r' where c: "cls c' x" and m: "rmatch (Star c' # ns) xs = Some (gs', r')"
    and e: "(gs, r) = cons_first x (gs', r')"
    by (auto split: if_splits)
  from rmatch_length[OF m] obtain g gt where gs': "gs' = g # gt" by (cases gs') auto
  with e have g: "r = r'" by auto
  from "8.prems" have "last (Star c' # ns) = Star c" by (cases ns) auto
  with "8.IH"[OF c, of gs'] m g show ?case by simp
next
  case (9 c' ns)
  then show ?case by (auto split: if_splits)
next
  case (10 c' ns x xs)
  from "10.prems" have ns: "ns \<noteq> []" "last ns = Star c" by (auto split: if_splits)
  show ?case
  proof (cases "rmatch ns (x # xs)")
    case (Some m)
    with "10.prems"(1) obtain gt where m: "rmatch ns (x # xs) = Some (gt, r)"
      by (cases m) auto
    from "10.IH"(1)[OF m ns] show ?thesis .
  next
    case None
    with "10.prems"(1) obtain gs' r' where c: "cls c' x" and m: "rmatch (Lazy c' # ns) xs = Some (gs', r')"
      and e: "(gs, r) = cons_first x (gs', r')"
      by (auto split: if_splits)
    from rmatch_length[OF m] obtain g gt where gs': "gs' = g # gt" by (cases gs') auto
    with e have g: "r = r'" by auto
    from "10.prems" have "last (Lazy c' # ns) = Star c" by simp
    with "10.IH"(2)[OF None c, of gs'] m g show ?thesis by simp
  qed
qed

section \<open>The pattern of the closing tokens\<close>

lemma star_eol_none:
  "list_all is_space ws3 \<Longrightarrow> newline \<notin> set ws3 \<Longrightarrow> \<not> is_space c \<Longrightarrow>
   rmatch [Star Space, Eol] (ws3 @ c # rest) = None"
  using is_space_newline by (induction ws3) auto

lemma star_eol_line:
  assumes "list_all is_space ws2" "list_all is_space ws3" "newline \<notin> set ws3" "\<not> is_space c"
  shows "rmatch [Star Space, Eol] (ws2 @ newline # ws3 @ c # rest)
         = Some ([ws2, []], newline # ws3 @ c # rest)"
proof -
  have "rmatch [Star Space, Eol] (newline # ws3 @ c # rest) = Some ([[], []], newline # ws3 @ c # rest)"
    using star_eol_none[OF assms(2,3,4), of rest] is_space_newline by simp
  from rmatch_Star_take[OF _ this, of ws2] assms(1) show ?thesis by simp
qed

lemma star_eol_end:
  assumes "list_all is_space ws2"
  shows "rmatch [Star Space, Eol] ws2 = Some ([ws2, []], [])"
proof -
  have "rmatch [Star Space, Eol] [] = Some ([[], []], [])" by simp
  from rmatch_Star_take[OF _ this, of ws2] assms show ?thesis by simp
qed

lemma closing_match:
  assumes "list_all is_space ws1" "list_all is_space ws2" "line_end post"
  shows "rmatch closing_pattern (ws1 @ ''});'' @ ws2 @ post) = Some ([ws1, ''});'', ws2, []], post)"
proof -
  have e: "rmatch [Star Space, Eol] (ws2 @ post) = Some ([ws2, []], post)"
    using assms(2,3) star_eol_line star_eol_end unfolding line_end_def by auto
  have "\<not> is_space CHR ''}''" by code_simp
  then have "rmatch [Star Space, Str ''});'', Star Space, Eol] (''});'' @ ws2 @ post)
        = Some ([[], ''});'', ws2, []], post)"
    using e by simp
  from rmatch_Star_take[OF _ this, of ws1] assms(1) show ?thesis
    by (simp add: closing_pattern_def)
qed

lemma star_eol_indep:
  "v \<noteq> [] \<Longrightarrow> \<not> is_space (last v) \<Longrightarrow>
   rmatch [Star Space, Eol] (v @ T) = map_option (ext_rest T) (rmatch [Star Space, Eol] v)"
proof (induction v)
  case Nil
  then show ?case by simp
next
  case (Cons x w)
  show ?case
  proof (cases "w = []")
    case True
    with Cons.prems have "\<not> is_space x" by simp
    with is_space_newline have "x \<noteq> newline" by auto
    with True \<open>\<not> is_space x\<close> show ?thesis by simp
  next
    case False
    with Cons have ih: "rmatch [Star Space, Eol] (w @ T) = map_option (ext_rest T) (rmatch [Star Space, Eol] w)"
      by simp
    show ?thesis
      by (cases "rmatch [Star Space, Eol] w") (auto simp: ih ext_rest_cons_first)
  qed
qed

lemma closing_lit_indep:
  assumes "v \<noteq> []" "\<not> is_space (last v)" "\<not> suffix ''});'' v"
    "T = [] \<or> (hd T \<noteq> CHR '')'' \<and> hd T \<noteq> CHR '';'')"
  shows "rmatch [Str ''});'', Star Space, Eol] (v @ T)
         = map_option (ext_rest T) (rmatch [Str ''});'', Star Space, Eol] v)"
proof (cases "prefix ''});'' v")
  case True
  then obtain v' where v: "v = ''});'' @ v'" by (auto simp: prefix_def)
  with assms(3) have ne: "v' \<noteq> []" by (auto simp: suffix_def)
  with assms(2) v have "\<not> is_space (last v')" by simp
  from star_eol_indep[OF ne this, of T] v show ?thesis
    by (cases "rmatch [Star Space, Eol] v'") (auto simp: ext_rest_add_seg)
next
  case False
  have "\<not> prefix ''});'' (v @ T)"
  proof
    assume p: "prefix ''});'' (v @ T)"
    show False
    proof (cases v)
      case Nil with assms(1) show ?thesis by simp
    next
      case (Cons a v1)
      show ?thesis
      proof (cases v1)
        case Nil
        with Cons p assms(4) show ?thesis by (cases T) auto
      next
        case (Cons b v2)
        show ?thesis
        proof (cases v2)
          case Nil
          with Cons \<open>v = a # v1\<close> p assms(4) show ?thesis by (cases T) auto
        next
          case (Cons c v3)
          with \<open>v1 = b # v2\<close> \<open>v = a # v1\<close> p False show ?thesis by auto
        qed
      qed
    qed
  qed
  with False show ?thesis by simp
qed

lemma closing_indep:
  assumes "T = [] \<or> (hd T \<noteq> CHR '')'' \<and> hd T \<noteq> CHR '';'')"
  shows "v \<noteq> [] \<Longrightarrow> \<not> is_space (last v) \<Longrightarrow> \<not> suffix ''});'' v \<Longrightarrow>
   rmatch closing_pattern (v @ T) = map_option (ext_rest T) (rmatch closing_pattern v)"
proof (induction v)
  case Nil
  then show ?case by simp
next
  case (Cons x w)
  note lit = closing_lit_indep[OF Cons.prems assms]
  show ?case
  proof (cases "w = []")
    case True
    with Cons.prems have "\<not> is_space x" by simp
    with lit True show ?thesis by (simp add: closing_pattern_def)
  next
    case False
    with Cons.prems have "\<not> is_space (last w)" "\<not> suffix ''});'' w"
      by (auto simp: suffix_Cons)
    with Cons.IH False have ih: "rmatch closing_pattern (w @ T) = map_option (ext_rest T) (rmatch closing_pattern w)"
      by simp
    show ?thesis
      using lit ih unfolding closing_pattern_def
      by (cases "rmatch [Star Space, Str ''});'', Star Space, Eol] w";
          cases "rmatch [Str ''});'', Star Space, Eol] (x # w)")
         (auto simp: ext_rest_cons_first ext_rest_add_seg)
  qed
qed

lemma closing_nonempty: "rmatch closing_pattern t = Some (gs, r) \<Longrightarrow> length r < length t"
  by (erule rmatch_nonempty) (simp add: closing_pattern_def)


section \<open>The matches of the validation patterns and of the logging statement\<close>

lemma validate_shape:
  assumes "rmatch validate_pattern t = Some (gs, r)"
  shows "\<exists>cfg ws. gs = [''@Validate({'', cfg, ''})'', ws, [newline]]
           \<and> CHR ''}'' \<notin> set cfg \<and> list_all is_space ws"
  using rmatch_sound[OF assms]
  by (auto simp: validate_pattern_def list_all2_Cons1 cls_Not_all)

lemma validation_shape:
  assumes "rmatch validation_pattern t = Some (gs, r)"
  shows "\<exists>a w1 b w2. gs = [''const validation = this.validateRequest('', a, '';'', w1,
                             ''if (!validation.isValid) {'', b, ''}'', w2]
           \<and> CHR '';'' \<notin> set a \<and> list_all is_space w1 \<and> CHR ''}'' \<notin> set b
           \<and> list_all is_space w2 \<and> (r = [] \<or> \<not> is_space (hd r))"
proof -
  have "r = [] \<or> \<not> cls Space (hd r)"
    by (rule rmatch_last_star[OF assms]) (simp_all add: validation_pattern_def)
  then show ?thesis
    using rmatch_sound[OF assms]
    by (auto simp: validation_pattern_def list_all2_Cons1 cls_Not_all)
qed

lemma log_shape:
  assumes "rmatch log_pattern t = Some (ls, post)"
  shows "\<exists>ws a. ls = [ws, ''this.logRequest'', a, '';''] \<and> list_all is_space ws
           \<and> CHR '';'' \<notin> set a"
  using rmatch_sound[OF assms]
  by (auto simp: log_pattern_def list_all2_Cons1 cls_Not_all)

lemma try_indent:
  assumes "rmatch try_pattern t = Some (gs, r)"
  shows "length gs = 17 \<and> list_all is_space (gs ! 0)"
  using rmatch_sound[OF assms]
  by (auto simp: try_pattern_def list_all2_Cons1)

section \<open>Occurrences of the relocated logging statement\<close>

lemma py_in_iff: "py_in n t \<longleftrightarrow> (\<exists>u v. t = u @ n @ v)"
proof (induction t)
  case Nil
  then show ?case by auto
next
  case (Cons x xs)
  show ?case
  proof
    assume "py_in n (x # xs)"
    then consider "prefix n (x # xs)" | "py_in n xs" by auto
    then show "\<exists>u v. x # xs = u @ n @ v"
    proof cases
      case 1
      then obtain v where "x # xs = n @ v" by (auto simp: prefix_def)
      then have "x # xs = [] @ n @ v" by simp
      then show ?thesis by blast
    next
      case 2
      with Cons.IH obtain u v where "xs = u @ n @ v" by auto
      then have "x # xs = (x # u) @ n @ v" by simp
      then show ?thesis by blast
    qed
  next
    assume "\<exists>u v. x # xs = u @ n @ v"
    then obtain u v where uv: "x # xs = u @ n @ v" by auto
    show "py_in n (x # xs)"
    proof (cases u)
      case Nil
      with uv have "prefix n (x # xs)" by (simp add: prefix_def)
      then show ?thesis by simp
    next
      case (Cons y u')
      with uv have "xs = u' @ n @ v" by simp
      with Cons.IH have "py_in n xs" by blast
      then show ?thesis by simp
    qed
  qed
qed






section \<open>A method after its indentation\<close>






section \<open>Plain methods\<close>









lemma closing_sub_empty: "re_sub closing_pattern (\<lambda>gs. Inr closing_text) [] = Inr []"
  by (simp add: closing_pattern_def)







lemma method_sub_identity: "CHR ''='' \<notin> set t \<Longrightarrow> re_sub method_pattern replace_method t = Inr t"
  by (rule re_sub_no_match, rule re_search_needs_char[of "''=''" _ "CHR ''=''"])
     (simp_all add: method_pattern_def)




section \<open>Matches of a pattern in front of another text\<close>

lemma map_option_ext_add:
  "map_option (ext_rest T) (map_option (add_seg l) m)
   = map_option (add_seg l) (map_option (ext_rest T) m)"
  by (cases m) (auto simp: ext_rest_add_seg)

lemma map_option_ext_cons:
  "map_option (ext_rest T) (map_option (cons_first x) m)
   = map_option (cons_first x) (map_option (ext_rest T) m)"
  by (cases m) (auto simp: ext_rest_cons_first)

lemma rmatch_rest_le: "rmatch p s = Some (gs, r) \<Longrightarrow> length r \<le> length s"
  using rmatch_sound[of p s gs r] by auto

lemma rep_none:
  assumes h: "\<And>gs r. list_all2 seg_ok (n # ns) gs \<Longrightarrow> y # ys = concat gs @ r \<Longrightarrow> length (y # ys) \<le> length r"
    and n: "n = Star c \<or> n = Plus c \<or> n = Lazy c" and c: "cls c y"
    and q: "q = Star c \<or> q = Lazy c" "q = Lazy c \<longrightarrow> n = Lazy c"
  shows "rmatch (q # ns) ys = None"
proof (cases "rmatch (q # ns) ys")
  case (Some m)
  obtain gs r where m: "m = (gs, r)" by (cases m)
  from rmatch_sound[OF Some[unfolded m]] have v: "list_all2 seg_ok (q # ns) gs" "ys = concat gs @ r"
    by auto
  from v(1) obtain g gs' where g: "gs = g # gs'" by (cases gs) auto
  from v(1) g q have a: "list_all (cls c) g" "list_all2 seg_ok ns gs'" by auto
  have "list_all2 seg_ok (n # ns) ((y # g) # gs')" using a c n by auto
  moreover have "y # ys = concat ((y # g) # gs') @ r" using v(2) g by simp
  ultimately have "length (y # ys) \<le> length r" by (rule h)
  with v(2) show ?thesis by simp
qed simp

lemma rmatch_indep:
  "Eol \<notin> set p \<Longrightarrow>
   (\<And>gs r. list_all2 seg_ok p gs \<Longrightarrow> v @ T = concat gs @ r \<Longrightarrow> length T \<le> length r) \<Longrightarrow>
   rmatch p (v @ T) = map_option (ext_rest T) (rmatch p v)"
proof (induction p v rule: rmatch.induct)
  case (1 s)
  show ?case by simp
next
  case (2 l ns s)
  show ?case
  proof (cases "prefix l s")
    case True
    then obtain s' where s: "s = l @ s'" by (auto elim: prefixE)
    have "rmatch ns (drop (length l) s @ T) = map_option (ext_rest T) (rmatch ns (drop (length l) s))"
    proof (rule "2.IH"[OF True])
      show "Eol \<notin> set ns" using "2.prems"(1) by simp
    next
      fix gs r assume a: "list_all2 seg_ok ns gs" "drop (length l) s @ T = concat gs @ r"
      show "length T \<le> length r"
        by (rule "2.prems"(2)[of "l # gs"]) (use a s in simp_all)
    qed
    with s show ?thesis by (simp add: map_option_ext_add)
  next
    case False
    have "rmatch (Str l # ns) (s @ T) = None"
    proof (cases "rmatch (Str l # ns) (s @ T)")
      case (Some m)
      obtain gs r where m: "m = (gs, r)" by (cases m)
      from rmatch_sound[OF Some[unfolded m]]
      have v: "list_all2 seg_ok (Str l # ns) gs" "s @ T = concat gs @ r" by auto
      from "2.prems"(2)[OF v] have len: "length T \<le> length r" .
      from v(1) obtain gs' where "gs = l # gs'" by (cases gs) auto
      with v(2) have e: "s @ T = l @ concat gs' @ r" by simp
      then have "length s + length T = length l + length (concat gs') + length r"
        by (metis length_append add.assoc)
      with len have "length l \<le> length s" by simp
      moreover from e have "prefix l (s @ T)" by (simp add: prefix_def)
      ultimately have "prefix l s" using prefix_length_prefix[of l "s @ T" s] by simp
      with False show ?thesis by simp
    qed simp
    with False show ?thesis by simp
  qed
next
  case (3 ns)
  then show ?case by simp
next
  case (4 ns x xs)
  then show ?case by simp
next
  case (5 c ns)
  have a: "rmatch (Star c # ns) T = map_option (add_seg []) (rmatch ns T)"
  proof (cases T)
    case (Cons y ys)
    show ?thesis
    proof (cases "cls c y")
      case True
      have "rmatch (Star c # ns) ys = None"
        by (rule rep_none[of "Star c" ns y ys c]) (use "5.prems"(2) Cons True in auto)
      with Cons True show ?thesis by simp
    qed (simp add: Cons)
  qed simp
  have b: "rmatch ns ([] @ T) = map_option (ext_rest T) (rmatch ns [])"
  proof (rule "5.IH")
    show "Eol \<notin> set ns" using "5.prems"(1) by simp
  next
    fix gs r assume "list_all2 seg_ok ns gs" "[] @ T = concat gs @ r"
    then show "length T \<le> length r" using "5.prems"(2)[of "[] # gs" r] by simp
  qed
  from a b show ?case by (simp add: map_option_ext_add)
next
  case (6 c ns x xs)
  have e: "Eol \<notin> set ns" using "6.prems"(1) by simp
  have h2: "length T \<le> length r" if "list_all2 seg_ok ns gs" "(x # xs) @ T = concat gs @ r" for gs r
    using "6.prems"(2)[of "[] # gs" r] that by simp
  show ?case
  proof (cases "cls c x")
    case True
    have i1: "rmatch (Star c # ns) (xs @ T) = map_option (ext_rest T) (rmatch (Star c # ns) xs)"
    proof (rule "6.IH"(1)[OF True "6.prems"(1)])
      fix gs r assume a: "list_all2 seg_ok (Star c # ns) gs" "xs @ T = concat gs @ r"
      from a(1) obtain g gs' where g: "gs = g # gs'" by (cases gs) auto
      show "length T \<le> length r"
        by (rule "6.prems"(2)[of "(x # g) # gs'" r]) (use a g True in auto)
    qed
    show ?thesis
    proof (cases "rmatch (Star c # ns) xs")
      case None
      from "6.IH"(2)[OF True None e h2]
      have "rmatch ns ((x # xs) @ T) = map_option (ext_rest T) (rmatch ns (x # xs))" by simp
      with None i1 True show ?thesis by (simp add: map_option_ext_add)
    next
      case (Some m)
      with i1 True show ?thesis by (simp add: ext_rest_cons_first)
    qed
  next
    case False
    from "6.IH"(3)[OF False e h2]
    have "rmatch ns ((x # xs) @ T) = map_option (ext_rest T) (rmatch ns (x # xs))" by simp
    with False show ?thesis by (simp add: map_option_ext_add)
  qed
next
  case (7 c ns)
  have "rmatch (Plus c # ns) T = None"
  proof (cases T)
    case (Cons y ys)
    show ?thesis
    proof (cases "cls c y")
      case True
      have "rmatch (Star c # ns) ys = None"
        by (rule rep_none[of "Plus c" ns y ys c]) (use "7.prems"(2) Cons True in auto)
      with Cons True show ?thesis by simp
    qed (simp add: Cons)
  qed simp
  then show ?case by simp
next
  case (8 c ns x xs)
  show ?case
  proof (cases "cls c x")
    case True
    have "rmatch (Star c # ns) (xs @ T) = map_option (ext_rest T) (rmatch (Star c # ns) xs)"
    proof (rule "8.IH"[OF True])
      show "Eol \<notin> set (Star c # ns)" using "8.prems"(1) by simp
    next
      fix gs r assume a: "list_all2 seg_ok (Star c # ns) gs" "xs @ T = concat gs @ r"
      from a(1) obtain g gs' where g: "gs = g # gs'" by (cases gs) auto
      show "length T \<le> length r"
        by (rule "8.prems"(2)[of "(x # g) # gs'" r]) (use a g True in auto)
    qed
    with True show ?thesis by (simp add: map_option_ext_cons)
  qed simp
next
  case (9 c ns)
  have a: "rmatch (Lazy c # ns) T = map_option (add_seg []) (rmatch ns T)"
  proof (cases T)
    case (Cons y ys)
    show ?thesis
    proof (cases "cls c y")
      case True
      have "rmatch (Lazy c # ns) ys = None"
        by (rule rep_none[of "Lazy c" ns y ys c]) (use "9.prems"(2) Cons True in auto)
      with Cons True show ?thesis by (simp split: option.splits)
    qed (simp add: Cons split: option.splits)
  qed simp
  have b: "rmatch ns ([] @ T) = map_option (ext_rest T) (rmatch ns [])"
  proof (rule "9.IH")
    show "Eol \<notin> set ns" using "9.prems"(1) by simp
  next
    fix gs r assume "list_all2 seg_ok ns gs" "[] @ T = concat gs @ r"
    then show "length T \<le> length r" using "9.prems"(2)[of "[] # gs" r] by simp
  qed
  from a b show ?case by (simp add: map_option_ext_add)
next
  case (10 c ns x xs)
  have e: "Eol \<notin> set ns" using "10.prems"(1) by simp
  have h2: "length T \<le> length r" if "list_all2 seg_ok ns gs" "(x # xs) @ T = concat gs @ r" for gs r
    using "10.prems"(2)[of "[] # gs" r] that by simp
  from "10.IH"(1)[OF e h2]
  have i1: "rmatch ns ((x # xs) @ T) = map_option (ext_rest T) (rmatch ns (x # xs))" by simp
  show ?case
  proof (cases "rmatch ns (x # xs)")
    case (Some m)
    with i1 show ?thesis by (simp add: ext_rest_add_seg)
  next
    case None
    show ?thesis
    proof (cases "cls c x")
      case True
      have "rmatch (Lazy c # ns) (xs @ T) = map_option (ext_rest T) (rmatch (Lazy c # ns) xs)"
      proof (rule "10.IH"(2)[OF None True "10.prems"(1)])
        fix gs r assume a: "list_all2 seg_ok (Lazy c # ns) gs" "xs @ T = concat gs @ r"
        from a(1) obtain g gs' where g: "gs = g # gs'" by (cases gs) auto
        show "length T \<le> length r"
          by (rule "10.prems"(2)[of "(x # g) # gs'" r]) (use a g True in auto)
      qed
      with None i1 True show ?thesis by (simp add: map_option_ext_cons)
    next
      case False
      with None i1 show ?thesis by simp
    qed
  qed
qed

section \<open>The substitution of the signatures in any text\<close>

lemma method_valid_shape:
  assumes "list_all2 seg_ok method_pattern gs"
  obtains g0 g1 g2 g4 g6 g8 g10 g12 g14 where
    "gs = [g0, g1, g2, ''='', g4, ''this.asyncHandler(async'', g6, ''('', g8, ''):'', g10,
           ''Promise<void>'', g12, ''=>'', g14, ''{'']"
    "list_all is_space g0" "g1 \<noteq> []" "list_all is_word g1" "list_all is_space g2"
    "list_all is_space g4" "list_all is_space g6" "newline \<notin> set g8"
    "list_all is_space g10" "list_all is_space g12" "list_all is_space g14"
  using assms unfolding method_pattern_def
  by (auto simp: list_all2_Cons1 list_all_iff)

lemma not_space_chars:
  "\<not> is_space CHR ''}''" "\<not> is_space CHR ''{''" "\<not> is_space CHR '')''" "\<not> is_space CHR '';''"
  "\<not> is_space CHR ''=''" "\<not> is_space CHR ''(''" "\<not> is_space CHR '':''" "\<not> is_space CHR ''@''"
  by (simp_all add: is_space_def)

lemma not_word_chars:
  "\<not> is_word CHR ''}''" "\<not> is_word CHR ''{''" "\<not> is_word CHR '')''" "\<not> is_word CHR '';''"
  "\<not> is_word CHR ''=''" "\<not> is_word CHR ''(''" "\<not> is_word CHR '':''" "\<not> is_word CHR ''@''"
  by (simp_all add: is_word_def)

lemma all_space_not_mem: "list_all is_space g \<Longrightarrow> \<not> is_space c \<Longrightarrow> c \<notin> set g"
  by (auto simp: list_all_iff)

lemma all_word_not_mem: "list_all is_word g \<Longrightarrow> \<not> is_word c \<Longrightarrow> c \<notin> set g"
  by (auto simp: list_all_iff)

text \<open>A match of the wrapped-callback pattern does not run over a closing brace after which
  the line holds no \<^verbatim>\<open>):\<close>.\<close>

lemma method_fits:
  assumes v: "list_all2 seg_ok method_pattern gs" "v @ ws1 @ CHR ''}'' # Z = concat gs @ r"
    and ws: "list_all is_space ws1"
    and z: "\<not> py_in ''):'' (takeWhile (\<lambda>c. c \<noteq> newline) Z)"
  shows "length (ws1 @ CHR ''}'' # Z) \<le> length r"
proof (rule ccontr)
  assume "\<not> length (ws1 @ CHR ''}'' # Z) \<le> length r"
  then have lt: "length r < length (ws1 @ CHR ''}'' # Z)" by simp
  from v(1) obtain g0 g1 g2 g4 g6 g8 g10 g12 g14 where
    gs: "gs = [g0, g1, g2, ''='', g4, ''this.asyncHandler(async'', g6, ''('', g8, ''):'', g10,
           ''Promise<void>'', g12, ''=>'', g14, ''{'']"
    and s: "list_all is_space g0" "g1 \<noteq> []" "list_all is_word g1" "list_all is_space g2"
    "list_all is_space g4" "list_all is_space g6" "newline \<notin> set g8"
    "list_all is_space g10" "list_all is_space g12" "list_all is_space g14"
    by (rule method_valid_shape)
  define L where "L = g0 @ g1 @ g2 @ ''='' @ g4 @ ''this.asyncHandler(async'' @ g6 @ ''(''"
  define R' where "R' = g10 @ ''Promise<void>'' @ g12 @ ''=>'' @ g14"
  have cg: "concat gs = L @ g8 @ ''):'' @ R' @ ''{''" by (simp add: gs L_def R'_def)
  have nL: "CHR ''}'' \<notin> set L"
    using s all_space_not_mem[OF _ not_space_chars(1)] all_word_not_mem[OF _ not_word_chars(1)]
    by (auto simp: L_def)
  have nR: "CHR ''}'' \<notin> set (''):'' @ R' @ ''{'')"
    using s all_space_not_mem[OF _ not_space_chars(1)] by (auto simp: R'_def)
  \<comment> \<open>the match ends after the brace\<close>
  from v(2) lt obtain T1 where T1: "ws1 @ CHR ''}'' # Z = T1 @ r" "concat gs = v @ T1" "T1 \<noteq> []"
  proof -
    from v(2) have "(v @ ws1 @ CHR ''}'' # Z) = concat gs @ r" .
    then obtain us where "(v = concat gs @ us \<and> us @ ws1 @ CHR ''}'' # Z = r)
        \<or> (v @ us = concat gs \<and> ws1 @ CHR ''}'' # Z = us @ r)"
      by (auto simp: append_eq_append_conv2)
    then show ?thesis
    proof
      assume "v = concat gs @ us \<and> us @ ws1 @ CHR ''}'' # Z = r"
      then have "length r \<ge> length (ws1 @ CHR ''}'' # Z)" by auto
      with lt show ?thesis by simp
    next
      assume a: "v @ us = concat gs \<and> ws1 @ CHR ''}'' # Z = us @ r"
      with lt have "us \<noteq> []" by auto
      with a show ?thesis by (intro that[of us]) auto
    qed
  qed
  have lastT1: "last T1 = CHR ''{''" using T1(2,3) cg
    by (metis (no_types, lifting) append_assoc last_appendR last_snoc)
  obtain Z1 where Z1: "T1 = ws1 @ CHR ''}'' # Z1" "Z = Z1 @ r"
  proof -
    from T1(1) obtain us where "(ws1 @ [CHR ''}''] = T1 @ us \<and> us @ Z = r)
        \<or> ((ws1 @ [CHR ''}'']) @ us = T1 \<and> Z = us @ r)"
      using append_eq_append_conv2[of "ws1 @ [CHR ''}'']" Z T1 r] by auto
    then show ?thesis
    proof
      assume a: "ws1 @ [CHR ''}''] = T1 @ us \<and> us @ Z = r"
      show ?thesis
      proof (cases us)
        case Nil
        with a have "last T1 = CHR ''}''" by (metis append_Nil2 last_snoc)
        with lastT1 show ?thesis by simp
      next
        case (Cons u us')
        with a have "ws1 @ [CHR ''}''] = T1 @ u # us'" by simp
        then have "prefix T1 ws1"
          by (metis append_butlast_last_id butlast_append butlast_snoc list.distinct(1) prefixI)
        then have "set T1 \<subseteq> set ws1" by (auto simp: prefix_def)
        with T1(3) have "last T1 \<in> set ws1" using last_in_set by blast
        with ws lastT1 not_space_chars(2) show ?thesis by (auto simp: list_all_iff)
      qed
    next
      assume "(ws1 @ [CHR ''}'']) @ us = T1 \<and> Z = us @ r"
      then show ?thesis by (intro that[of us]) auto
    qed
  qed
  from T1(2) Z1(1) cg have e: "(v @ ws1) @ CHR ''}'' # Z1 = L @ g8 @ ''):'' @ R' @ ''{''" by simp
  have "\<exists>P'. set P' \<subseteq> set g8 \<and> Z1 = P' @ ''):'' @ R' @ ''{''"
  proof -
    from e obtain us where "(v @ ws1 = L @ us \<and> us @ CHR ''}'' # Z1 = g8 @ ''):'' @ R' @ ''{'')
        \<or> ((v @ ws1) @ us = L \<and> CHR ''}'' # Z1 = us @ g8 @ ''):'' @ R' @ ''{'')"
      using append_eq_append_conv2[of "v @ ws1" "CHR ''}'' # Z1" L "g8 @ ''):'' @ R' @ ''{''"]
      by auto
    then have "\<exists>us. us @ CHR ''}'' # Z1 = g8 @ ''):'' @ R' @ ''{''"
    proof
      assume "v @ ws1 = L @ us \<and> us @ CHR ''}'' # Z1 = g8 @ ''):'' @ R' @ ''{''"
      then show ?thesis by blast
    next
      assume a: "(v @ ws1) @ us = L \<and> CHR ''}'' # Z1 = us @ g8 @ ''):'' @ R' @ ''{''"
      show ?thesis
      proof (cases us)
        case Nil
        with a show ?thesis by (intro exI[of _ "[]"]) simp
      next
        case (Cons u us')
        with a have "u = CHR ''}''" "u \<in> set L" by auto
        with nL show ?thesis by simp
      qed
    qed
    then obtain us where u: "us @ CHR ''}'' # Z1 = g8 @ (''):'' @ R' @ ''{'')" by auto
    then obtain ws where "(us = g8 @ ws \<and> ws @ CHR ''}'' # Z1 = ''):'' @ R' @ ''{'')
        \<or> (us @ ws = g8 \<and> CHR ''}'' # Z1 = ws @ ''):'' @ R' @ ''{'')"
      using append_eq_append_conv2[of us "CHR ''}'' # Z1" g8 "''):'' @ R' @ ''{''"] by auto
    then show ?thesis
    proof
      assume a: "us = g8 @ ws \<and> ws @ CHR ''}'' # Z1 = ''):'' @ R' @ ''{''"
      then have "ws @ CHR ''}'' # Z1 = ''):'' @ R' @ ''{''" by (rule conjunct2)
      then have "CHR ''}'' \<in> set (''):'' @ R' @ ''{'')" by (metis in_set_conv_decomp)
      with nR show ?thesis by simp
    next
      assume a: "us @ ws = g8 \<and> CHR ''}'' # Z1 = ws @ ''):'' @ R' @ ''{''"
      show ?thesis
      proof (cases ws)
        case Nil
        with a show ?thesis by simp
      next
        case (Cons w ws')
        with a have "Z1 = ws' @ ''):'' @ R' @ ''{''" "set ws' \<subseteq> set g8" by auto
        then show ?thesis by blast
      qed
    qed
  qed
  then obtain P' where P': "set P' \<subseteq> set g8" "Z1 = P' @ ''):'' @ R' @ ''{''" by blast
  from P'(1) s(7) have "\<forall>x\<in>set P'. x \<noteq> newline" by auto
  then have "takeWhile (\<lambda>c. c \<noteq> newline) Z
             = P' @ ''):'' @ takeWhile (\<lambda>c. c \<noteq> newline) (R' @ ''{'' @ r)"
    using Z1(2) P'(2) by (simp add: takeWhile_append2 newline_def)
  then have "py_in ''):'' (takeWhile (\<lambda>c. c \<noteq> newline) Z)"
    unfolding py_in_iff by blast
  with z show False by simp
qed

lemma method_nonempty: "rmatch method_pattern t = Some (gs, r) \<Longrightarrow> length r < length t"
  by (erule rmatch_nonempty) (simp add: method_pattern_def)

lemma method_sub_split:
  assumes "list_all is_space ws1" "\<not> py_in ''):'' (takeWhile (\<lambda>c. c \<noteq> newline) Z)"
  shows "re_sub method_pattern replace_method (pre @ ws1 @ CHR ''}'' # Z)
         = bind_e (re_sub method_pattern replace_method pre) (\<lambda>a.
             bind_e (re_sub method_pattern replace_method (ws1 @ CHR ''}'' # Z)) (\<lambda>b. Inr (a @ b)))"
proof (rule re_sub_split)
  fix t gs r assume "rmatch method_pattern t = Some (gs, r)"
  then show "length r < length t" by (rule method_nonempty)
next
  fix u v assume "pre = u @ v" "v \<noteq> []"
  show "rmatch method_pattern (v @ ws1 @ CHR ''}'' # Z)
        = map_option (ext_rest (ws1 @ CHR ''}'' # Z)) (rmatch method_pattern v)"
  proof (rule rmatch_indep)
    show "Eol \<notin> set method_pattern" by (simp add: method_pattern_def)
  next
    fix gs r assume "list_all2 seg_ok method_pattern gs" "v @ ws1 @ CHR ''}'' # Z = concat gs @ r"
    then show "length (ws1 @ CHR ''}'' # Z) \<le> length r" using assms by (rule method_fits)
  qed
qed

lemma star_plus_none:
  "list_all is_space w \<Longrightarrow> \<not> is_word c \<Longrightarrow> \<not> is_space c \<Longrightarrow>
   rmatch (Star Space # Plus WordC # ns) (w @ c # X) = None"
  by (induction w) (auto simp: space_not_word)

lemma method_sub_skip_space:
  assumes "list_all is_space w" "\<not> is_word c" "\<not> is_space c"
  shows "re_sub method_pattern replace_method (w @ c # X)
         = bind_e (re_sub method_pattern replace_method X) (\<lambda>u. Inr (w @ c # u))"
proof -
  have "re_sub method_pattern replace_method ((w @ [c]) @ X)
         = bind_e (re_sub method_pattern replace_method X) (\<lambda>u. Inr ((w @ [c]) @ u))"
  proof (rule re_sub_skip)
    fix u v assume uv: "w @ [c] = u @ v" "v \<noteq> []"
    then obtain v' where v: "v = v' @ [c]" "w = u @ v'"
      by (metis append_butlast_last_id butlast_append butlast_snoc last_appendR last_snoc append_assoc)
    with assms(1) have "list_all is_space v'" by simp
    from star_plus_none[OF this assms(2,3)] v(1)
    show "rmatch method_pattern (v @ X) = None" by (simp add: method_pattern_def)
  qed
  then show ?thesis by simp
qed

lemma takeWhile_line:
  assumes "list_all is_space ws2" "post = [] \<or> hd post = newline"
  shows "\<not> py_in ''):'' (takeWhile (\<lambda>c. c \<noteq> newline) ('');'' @ ws2 @ post))"
proof
  assume "py_in ''):'' (takeWhile (\<lambda>c. c \<noteq> newline) ('');'' @ ws2 @ post))"
  then obtain u v where e: "takeWhile (\<lambda>c. c \<noteq> newline) ('');'' @ ws2 @ post) = u @ ''):'' @ v"
    unfolding py_in_iff by blast
  have "takeWhile (\<lambda>c. c \<noteq> newline) (ws2 @ post) = takeWhile (\<lambda>c. c \<noteq> newline) ws2"
    using assms(2) by (cases post) (simp_all add: takeWhile_tail)
  then have t: "takeWhile (\<lambda>c. c \<noteq> newline) ('');'' @ ws2 @ post)
             = '');'' @ takeWhile (\<lambda>c. c \<noteq> newline) ws2"
    by (simp add: newline_def)
  have "CHR '':'' \<in> set (u @ ''):'' @ v)" by simp
  with e t have "CHR '':'' \<in> set (takeWhile (\<lambda>c. c \<noteq> newline) ws2)" by auto
  then have "CHR '':'' \<in> set ws2" by (rule set_takeWhileD[THEN conjunct1])
  with assms(1) not_space_chars(7) show False by (auto simp: list_all_iff)
qed

text \<open>The substitution of the signatures around closing tokens that end their line.\<close>

lemma method_sub_closing:
  assumes "list_all is_space ws1" "list_all is_space ws2" "post = [] \<or> hd post = newline"
  shows "re_sub method_pattern replace_method (pre @ ws1 @ ''});'' @ ws2 @ post)
         = bind_e (re_sub method_pattern replace_method pre) (\<lambda>a.
             bind_e (re_sub method_pattern replace_method (ws2 @ post)) (\<lambda>b.
               Inr (a @ ws1 @ ''});'' @ b)))"
proof -
  let ?Z = "'');'' @ ws2 @ post"
  have 1: "re_sub method_pattern replace_method (pre @ ws1 @ CHR ''}'' # ?Z)
         = bind_e (re_sub method_pattern replace_method pre) (\<lambda>a.
             bind_e (re_sub method_pattern replace_method (ws1 @ CHR ''}'' # ?Z)) (\<lambda>b. Inr (a @ b)))"
    by (rule method_sub_split[OF assms(1) takeWhile_line[OF assms(2,3)]])
  have 2: "re_sub method_pattern replace_method (ws1 @ CHR ''}'' # ?Z)
         = bind_e (re_sub method_pattern replace_method ?Z) (\<lambda>u. Inr (ws1 @ CHR ''}'' # u))"
    by (rule method_sub_skip_space[OF assms(1) not_word_chars(1) not_space_chars(1)])
  have 3: "re_sub method_pattern replace_method ([] @ CHR '')'' # '';'' @ ws2 @ post)
         = bind_e (re_sub method_pattern replace_method ('';'' @ ws2 @ post)) (\<lambda>u. Inr ([] @ CHR '')'' # u))"
    by (rule method_sub_skip_space[OF _ not_word_chars(3) not_space_chars(3)]) simp
  have 4: "re_sub method_pattern replace_method ([] @ CHR '';'' # ws2 @ post)
         = bind_e (re_sub method_pattern replace_method (ws2 @ post)) (\<lambda>u. Inr ([] @ CHR '';'' # u))"
    by (rule method_sub_skip_space[OF _ not_word_chars(4) not_space_chars(4)]) simp
  from 3 4 have 5: "re_sub method_pattern replace_method ?Z
         = bind_e (re_sub method_pattern replace_method (ws2 @ post)) (\<lambda>u. Inr ('');'' @ u))"
    by (cases "re_sub method_pattern replace_method (ws2 @ post)") simp_all
  show ?thesis
    using 1 2 5
    by (cases "re_sub method_pattern replace_method pre";
        cases "re_sub method_pattern replace_method (ws2 @ post)") simp_all
qed

text \<open>What a match of the wrapped-callback pattern is replaced by.\<close>

lemma replace_method_shape:
  assumes "rmatch method_pattern t = Some (gs, r)"
  shows "\<exists>g0 rep. replace_method gs = Inr (g0 @ CHR ''a'' # rep @ ''{'') \<and> gs \<noteq> [] \<and> g0 = hd gs
           \<and> list_all is_space g0 \<and> (\<exists>m. concat gs = g0 @ m @ ''{'' \<and> m \<noteq> [] \<and> is_word (hd m))"
proof -
  from rmatch_sound[OF assms] have "list_all2 seg_ok method_pattern gs" by simp
  then obtain g0 g1 g2 g4 g6 g8 g10 g12 g14 where
    gs: "gs = [g0, g1, g2, ''='', g4, ''this.asyncHandler(async'', g6, ''('', g8, ''):'', g10,
           ''Promise<void>'', g12, ''=>'', g14, ''{'']"
    and s: "list_all is_space g0" "g1 \<noteq> []" "list_all is_word g1"
    by (rule method_valid_shape)
  have "replace_method gs = Inr (g0 @ CHR ''a'' # (''sync '' @ g1 @ ''('' @ g8
          @ ''): Promise<void> {'' @ [newline] @ g0 @ ''  try '') @ ''{'')"
    by (simp add: gs replace_method_def group_def)
  moreover have "concat gs = g0 @ (g1 @ g2 @ ''='' @ g4 @ ''this.asyncHandler(async'' @ g6 @ ''(''
        @ g8 @ ''):'' @ g10 @ ''Promise<void>'' @ g12 @ ''=>'' @ g14) @ ''{''"
    by (simp add: gs)
  moreover have "is_word (hd (g1 @ g2 @ ''='' @ g4 @ ''this.asyncHandler(async'' @ g6 @ ''(''
        @ g8 @ ''):'' @ g10 @ ''Promise<void>'' @ g12 @ ''=>'' @ g14))"
    using s(2,3) by (cases g1) auto
  ultimately show ?thesis using s gs by (metis append_is_Nil_conv list.sel(1) list.distinct(1))
qed

lemma method_sub_total: "\<exists>t. re_sub method_pattern replace_method s = Inr t"
  by (rule re_sub_total) (rule replace_method_total)

lemma space_prefix_unique:
  assumes "g0 @ a # A = w @ b # B" "list_all is_space g0" "list_all is_space w"
    "\<not> is_space a" "\<not> is_space b"
  shows "g0 = w"
proof -
  have "takeWhile is_space (g0 @ a # A) = g0" using assms(2,4)
    by (simp add: takeWhile_tail list_all_iff)
  moreover have "takeWhile is_space (w @ b # B) = w" using assms(3,5)
    by (simp add: takeWhile_tail list_all_iff)
  ultimately show ?thesis using assms(1) by simp
qed

text \<open>The substitution of the signatures keeps the whitespace a text begins with, and a
  character that is no whitespace after it.\<close>

lemma method_sub_space:
  assumes "list_all is_space w" "X = [] \<or> \<not> is_space (hd X)"
  shows "\<exists>X'. re_sub method_pattern replace_method (w @ X) = Inr (w @ X')
           \<and> (X = [] \<longrightarrow> X' = []) \<and> (X \<noteq> [] \<longrightarrow> X' \<noteq> [] \<and> \<not> is_space (hd X'))"
proof (cases "X = []")
  case True
  have "CHR ''='' \<notin> set w" using assms(1) not_space_chars(5) by (auto simp: list_all_iff)
  from method_sub_identity[OF this] True show ?thesis by simp
next
  case False
  then obtain c X0 where X: "X = c # X0" by (cases X) auto
  with assms(2) have c: "\<not> is_space c" by simp
  have step: "\<exists>Y. re_sub method_pattern replace_method (g @ X) = Inr (g @ CHR ''a'' # Y)"
    if m: "rmatch method_pattern (g @ X) = Some (gs, r)" and g: "list_all is_space g" for g gs r
  proof -
    from replace_method_shape[OF m] obtain g0 rep mm where
      r: "replace_method gs = Inr (g0 @ CHR ''a'' # rep @ ''{'')" "list_all is_space g0"
         "concat gs = g0 @ mm @ ''{''" "mm \<noteq> []" "is_word (hd mm)" by blast
    from rmatch_sound[OF m] have "g @ X = concat gs @ r" by simp
    with r(3,4) X have "g0 @ hd mm # (tl mm @ ''{'' @ r) = g @ c # X0"
      by (cases mm) simp_all
    from space_prefix_unique[OF this r(2) g word_not_space[OF r(5)] c] have g0: "g0 = g" .
    obtain u where u: "re_sub method_pattern replace_method r = Inr u"
      using method_sub_total by blast
    from re_sub_match[where f=replace_method, OF m method_nonempty[OF m] r(1)] u g0
    show ?thesis by simp
  qed
  have na: "\<not> is_space CHR ''a''" by (simp add: is_space_def)
  have "\<exists>X'. re_sub method_pattern replace_method (w @ X) = Inr (w @ X')
           \<and> X' \<noteq> [] \<and> \<not> is_space (hd X')"
    using assms(1)
  proof (induction w)
    case Nil
    show ?case
    proof (cases "rmatch method_pattern X")
      case None
      obtain u where "re_sub method_pattern replace_method X0 = Inr u"
        using method_sub_total by blast
      with None X c show ?thesis by simp
    next
      case (Some m)
      obtain gs r where "m = (gs, r)" by (cases m)
      with Some have "rmatch method_pattern ([] @ X) = Some (gs, r)" by simp
      from step[OF this] obtain Y where
        "re_sub method_pattern replace_method ([] @ X) = Inr ([] @ CHR ''a'' # Y)" by auto
      with na show ?thesis by (intro exI[of _ "CHR ''a'' # Y"]) simp
    qed
  next
    case (Cons x w')
    show ?case
    proof (cases "rmatch method_pattern ((x # w') @ X)")
      case None
      from Cons obtain X' where "re_sub method_pattern replace_method (w' @ X) = Inr (w' @ X')"
        "X' \<noteq> []" "\<not> is_space (hd X')" by auto
      with None show ?thesis by simp
    next
      case (Some m)
      obtain gs r where "m = (gs, r)" by (cases m)
      with Some have "rmatch method_pattern ((x # w') @ X) = Some (gs, r)" by simp
      from step[OF this Cons.prems] obtain Y where
        "re_sub method_pattern replace_method ((x # w') @ X) = Inr ((x # w') @ CHR ''a'' # Y)"
        by auto
      with na show ?thesis by (intro exI[of _ "CHR ''a'' # Y"]) simp
    qed
  qed
  with False show ?thesis by blast
qed

text \<open>The text after the last match is kept; a replacement ends with a brace as its match did.\<close>

lemma method_sub_tail:
  "re_sub method_pattern replace_method s = Inr A \<Longrightarrow>
   A = s \<or> (\<exists>A1 S1 e. A = A1 @ CHR ''{'' # e \<and> s = S1 @ CHR ''{'' # e)"
proof (induction "length s" arbitrary: s A rule: less_induct)
  case less
  show ?case
  proof (cases s)
    case Nil
    with less.prems show ?thesis by (simp add: method_pattern_def)
  next
    case (Cons x xs)
    show ?thesis
    proof (cases "rmatch method_pattern s")
      case None
      obtain u where u: "re_sub method_pattern replace_method xs = Inr u"
        using method_sub_total by blast
      with None Cons less.prems have A: "A = x # u" by simp
      from less.hyps[OF _ u] Cons
      have "u = xs \<or> (\<exists>A1 S1 e. u = A1 @ CHR ''{'' # e \<and> xs = S1 @ CHR ''{'' # e)" by simp
      then show ?thesis
      proof
        assume "u = xs" with A Cons show ?thesis by simp
      next
        assume "\<exists>A1 S1 e. u = A1 @ CHR ''{'' # e \<and> xs = S1 @ CHR ''{'' # e"
        then obtain A1 S1 e where "u = A1 @ CHR ''{'' # e" "xs = S1 @ CHR ''{'' # e" by blast
        with A Cons have "A = (x # A1) @ CHR ''{'' # e" "s = (x # S1) @ CHR ''{'' # e" by simp_all
        then show ?thesis by blast
      qed
    next
      case (Some m)
      obtain gs r where m: "rmatch method_pattern s = Some (gs, r)" using Some by (cases m) auto
      from replace_method_shape[OF m] obtain g0 rep mm where
        r: "replace_method gs = Inr (g0 @ CHR ''a'' # rep @ ''{'')" "concat gs = g0 @ mm @ ''{''"
        by blast
      from rmatch_sound[OF m] have s: "s = concat gs @ r" by simp
      obtain u where u: "re_sub method_pattern replace_method r = Inr u"
        using method_sub_total by blast
      from re_sub_match[where f=replace_method, OF m method_nonempty[OF m] r(1)] u less.prems
      have A: "A = (g0 @ CHR ''a'' # rep @ ''{'') @ u" by simp
      from less.hyps[OF method_nonempty[OF m] u]
      have "u = r \<or> (\<exists>A1 S1 e. u = A1 @ CHR ''{'' # e \<and> r = S1 @ CHR ''{'' # e)" .
      then show ?thesis
      proof
        assume "u = r"
        with A s r(2) have "A = (g0 @ CHR ''a'' # rep) @ CHR ''{'' # r" "s = (g0 @ mm) @ CHR ''{'' # r"
          by simp_all
        then show ?thesis by blast
      next
        assume "\<exists>A1 S1 e. u = A1 @ CHR ''{'' # e \<and> r = S1 @ CHR ''{'' # e"
        then obtain A1 S1 e where "u = A1 @ CHR ''{'' # e" "r = S1 @ CHR ''{'' # e" by blast
        with A s have "A = ((g0 @ CHR ''a'' # rep @ ''{'') @ A1) @ CHR ''{'' # e"
          "s = (concat gs @ S1) @ CHR ''{'' # e" by simp_all
        then show ?thesis by blast
      qed
    qed
  qed
qed

lemma method_sub_last:
  assumes "re_sub method_pattern replace_method s = Inr A" "s \<noteq> []"
  shows "A \<noteq> [] \<and> last A = last s"
  using method_sub_tail[OF assms(1)] assms(2) by (auto simp: last_append)

lemma suffix_after_brace:
  assumes "CHR ''{'' \<notin> set l"
  shows "suffix l (X @ CHR ''{'' # e) \<longleftrightarrow> suffix l e"
proof
  assume a: "suffix l (X @ CHR ''{'' # e)"
  have b: "suffix (CHR ''{'' # e) (X @ CHR ''{'' # e)" by (simp add: suffix_def)
  from suffix_same_cases[OF a b] show "suffix l e"
  proof
    assume "suffix l (CHR ''{'' # e)"
    with assms show ?thesis by (auto simp: suffix_Cons)
  next
    assume "suffix (CHR ''{'' # e) l"
    then have "CHR ''{'' \<in> set l" by (auto simp: suffix_def)
    with assms show ?thesis by simp
  qed
next
  assume "suffix l e"
  then show "suffix l (X @ CHR ''{'' # e)" by (auto simp: suffix_def)
qed

lemma method_sub_suffix:
  assumes "re_sub method_pattern replace_method s = Inr A" "CHR ''{'' \<notin> set l"
  shows "suffix l A \<longleftrightarrow> suffix l s"
  using method_sub_tail[OF assms(1)] suffix_after_brace[OF assms(2)] by auto

section \<open>The closing tokens in any text\<close>

lemma rmatch_eol_last:
  "rmatch p t = Some (gs, r) \<Longrightarrow> p \<noteq> [] \<Longrightarrow> last p = Eol \<Longrightarrow> r = [] \<or> hd r = newline"
proof (induction p t arbitrary: gs rule: rmatch.induct)
  case (1 s)
  then show ?case by simp
next
  case (2 l ns s)
  from "2.prems" have ns: "ns \<noteq> []" "last ns = Eol" by (auto split: if_splits)
  from "2.prems"(1) obtain gt where p: "prefix l s" and m: "rmatch ns (drop (length l) s) = Some (gt, r)"
    by (auto split: if_splits)
  from "2.IH"[OF p m ns] show ?case .
next
  case (3 ns)
  from rmatch_rest_le[OF "3.prems"(1)] show ?case by simp
next
  case (4 ns x xs)
  from "4.prems"(1) have x: "x = newline" by (auto split: if_splits)
  show ?case
  proof (cases "ns = []")
    case True
    with "4.prems"(1) x show ?thesis by auto
  next
    case False
    with "4.prems" have l: "last ns = Eol" by simp
    from "4.prems"(1) x obtain gt where m: "rmatch ns (x # xs) = Some (gt, r)" by auto
    from "4.IH"[OF x m False l] show ?thesis .
  qed
next
  case (5 c' ns)
  from rmatch_rest_le[OF "5.prems"(1)] show ?case by simp
next
  case (6 c' ns x xs)
  from "6.prems" have ns: "ns \<noteq> []" "last ns = Eol" by (auto split: if_splits)
  with "6.prems" have l: "last (Star c' # ns) = Eol" by auto
  show ?case
  proof (cases "cls c' x \<and> rmatch (Star c' # ns) xs \<noteq> None")
    case True
    then obtain gs' r' where m: "rmatch (Star c' # ns) xs = Some (gs', r')" by auto
    from rmatch_length[OF m] obtain g gt where gs': "gs' = g # gt" by (cases gs') auto
    from "6.prems"(1) True m gs' have "r = r'" by auto
    with "6.IH"(1)[of gs'] True m l show ?thesis by simp
  next
    case False
    then have f: "cls c' x \<Longrightarrow> rmatch (Star c' # ns) xs = None" by blast
    with "6.prems"(1) obtain gt where m: "rmatch ns (x # xs) = Some (gt, r)"
      by (auto split: if_splits option.splits)
    show ?thesis
    proof (cases "cls c' x")
      case True
      from "6.IH"(2)[OF True f[OF True] m ns] show ?thesis .
    next
      case False
      from "6.IH"(3)[OF False m ns] show ?thesis .
    qed
  qed
next
  case (7 c' ns)
  then show ?case by simp
next
  case (8 c' ns x xs)
  from "8.prems"(1) obtain gs' r' where c: "cls c' x" and m: "rmatch (Star c' # ns) xs = Some (gs', r')"
    and e: "(gs, r) = cons_first x (gs', r')"
    by (auto split: if_splits)
  from rmatch_length[OF m] obtain g gt where gs': "gs' = g # gt" by (cases gs') auto
  with e have g: "r = r'" by auto
  from "8.prems" have "last (Star c' # ns) = Eol" by (cases ns) auto
  with "8.IH"[OF c, of gs'] m g show ?case by simp
next
  case (9 c' ns)
  from rmatch_rest_le[OF "9.prems"(1)] show ?case by simp
next
  case (10 c' ns x xs)
  from "10.prems" have ns: "ns \<noteq> []" "last ns = Eol" by (auto split: if_splits)
  show ?case
  proof (cases "rmatch ns (x # xs)")
    case (Some m)
    with "10.prems"(1) obtain gt where m: "rmatch ns (x # xs) = Some (gt, r)"
      by (cases m) auto
    from "10.IH"(1)[OF m ns] show ?thesis .
  next
    case None
    with "10.prems"(1) obtain gs' r' where c: "cls c' x" and m: "rmatch (Lazy c' # ns) xs = Some (gs', r')"
      and e: "(gs, r) = cons_first x (gs', r')"
      by (auto split: if_splits)
    from rmatch_length[OF m] obtain g gt where gs': "gs' = g # gt" by (cases gs') auto
    with e have g: "r = r'" by auto
    from "10.prems" have "last (Lazy c' # ns) = Eol" by simp
    with "10.IH"(2)[OF None c, of gs'] m g show ?thesis by simp
  qed
qed

lemma star_str_gen:
  assumes "l \<noteq> []" "\<not> is_space (hd l)" "Y = [] \<or> \<not> is_space (hd Y)"
  shows "list_all is_space g0 \<Longrightarrow>
         rmatch (Star Space # Str l # ns) (g0 @ Y) = map_option (add_seg g0) (rmatch (Str l # ns) Y)"
proof (induction g0)
  case Nil
  from assms(3) have "Y = [] \<or> \<not> cls Space (hd Y)" by simp
  from rmatch_Star_stop[OF this] show ?case by simp
next
  case (Cons x g)
  then have x: "is_space x" and g: "list_all is_space g" by auto
  from x assms have np: "\<not> prefix l (x # g @ Y)" by (cases l) auto
  from Cons.IH[OF g] np x show ?case
    by (cases "rmatch (Str l # ns) Y") (auto split: prod.splits)
qed

text \<open>The closing tokens at the end of a text, in front of another text.\<close>

lemma closing_at_final:
  assumes "list_all is_space g0"
  shows "rmatch closing_pattern (g0 @ ''});'' @ T)
         = map_option (\<lambda>m. add_seg g0 (add_seg ''});'' m)) (rmatch [Star Space, Eol] T)"
proof -
  have "rmatch closing_pattern (g0 @ ''});'' @ T)
        = map_option (add_seg g0) (rmatch [Str ''});'', Star Space, Eol] (''});'' @ T))"
    unfolding closing_pattern_def
    by (rule star_str_gen[OF _ _ _ assms]) (simp_all add: not_space_chars)
  then show ?thesis by (cases "rmatch [Star Space, Eol] T") simp_all
qed

lemma closing_lit_other:
  assumes "v \<noteq> []" "\<not> is_space (last v)" "v \<noteq> ''});''"
    "T = [] \<or> (hd T \<noteq> CHR '')'' \<and> hd T \<noteq> CHR '';'')"
  shows "rmatch [Str ''});'', Star Space, Eol] (v @ T)
         = map_option (ext_rest T) (rmatch [Str ''});'', Star Space, Eol] v)"
proof (cases "prefix ''});'' v")
  case True
  then obtain v' where v: "v = ''});'' @ v'" by (auto simp: prefix_def)
  with assms(3) have ne: "v' \<noteq> []" by auto
  with assms(2) v have "\<not> is_space (last v')" by simp
  from star_eol_indep[OF ne this, of T] v show ?thesis
    by (cases "rmatch [Star Space, Eol] v'") (auto simp: ext_rest_add_seg)
next
  case False
  have "\<not> prefix ''});'' (v @ T)"
  proof
    assume p: "prefix ''});'' (v @ T)"
    show False
    proof (cases v)
      case Nil with assms(1) show ?thesis by simp
    next
      case (Cons a v1)
      show ?thesis
      proof (cases v1)
        case Nil
        with Cons p assms(4) show ?thesis by (cases T) auto
      next
        case (Cons b v2)
        show ?thesis
        proof (cases v2)
          case Nil
          with Cons \<open>v = a # v1\<close> p assms(4) show ?thesis by (cases T) auto
        next
          case (Cons c v3)
          with \<open>v1 = b # v2\<close> \<open>v = a # v1\<close> p False show ?thesis by auto
        qed
      qed
    qed
  qed
  with False show ?thesis by simp
qed

lemma space_split:
  assumes "v \<noteq> []" "\<not> is_space (last v)"
  obtains g0 c v1 where "v = g0 @ c # v1" "list_all is_space g0" "\<not> is_space c"
    "g0 = takeWhile is_space v" "c # v1 = dropWhile is_space v"
proof -
  have "dropWhile is_space v \<noteq> []"
    using assms by (metis dropWhile_eq_Nil_conv last_in_set)
  then obtain c v1 where d: "dropWhile is_space v = c # v1" by (cases "dropWhile is_space v") auto
  then have "\<not> is_space c" by (metis hd_dropWhile list.sel(1) list.distinct(1))
  moreover have "v = takeWhile is_space v @ c # v1" using d by (metis takeWhile_dropWhile_id)
  moreover have "list_all is_space (takeWhile is_space v)"
    by (simp add: list_all_iff) (meson set_takeWhileD)
  ultimately show ?thesis using d by (intro that[of "takeWhile is_space v" c v1]) auto
qed

lemma closing_other:
  assumes "v \<noteq> []" "\<not> is_space (last v)" "dropWhile is_space v \<noteq> ''});''"
    "T = [] \<or> (hd T \<noteq> CHR '')'' \<and> hd T \<noteq> CHR '';'')"
  shows "rmatch closing_pattern (v @ T) = map_option (ext_rest T) (rmatch closing_pattern v)"
proof -
  from assms(1,2) obtain g0 c v1 where v: "v = g0 @ c # v1" "list_all is_space g0" "\<not> is_space c"
    "c # v1 = dropWhile is_space v" by (rule space_split)
  from v(1) assms(2) have l: "\<not> is_space (last (c # v1))" by simp
  from v(4) assms(3) have ne: "c # v1 \<noteq> ''});''" by simp
  from closing_lit_other[OF _ l ne assms(4)]
  have lit: "rmatch [Str ''});'', Star Space, Eol] ((c # v1) @ T)
         = map_option (ext_rest T) (rmatch [Str ''});'', Star Space, Eol] (c # v1))" by simp
  have a: "rmatch closing_pattern (g0 @ (c # v1) @ T)
        = map_option (add_seg g0) (rmatch [Str ''});'', Star Space, Eol] ((c # v1) @ T))"
    unfolding closing_pattern_def
    by (rule star_str_gen[OF _ _ _ v(2)]) (simp_all add: not_space_chars v(3))
  have b: "rmatch closing_pattern (g0 @ c # v1)
        = map_option (add_seg g0) (rmatch [Str ''});'', Star Space, Eol] (c # v1))"
    unfolding closing_pattern_def
    by (rule star_str_gen[OF _ _ _ v(2)]) (simp_all add: not_space_chars v(3))
  from a b lit have "rmatch closing_pattern (g0 @ (c # v1) @ T)
        = map_option (ext_rest T) (rmatch closing_pattern (g0 @ c # v1))"
    by (simp only: map_option_ext_add)
  with v(1) show ?thesis by simp
qed

lemma closing_sub_total: "\<exists>t. re_sub closing_pattern (\<lambda>gs. Inr closing_text) s = Inr t"
  by (rule re_sub_total) simp

lemma closing_valid_shape:
  assumes "list_all2 seg_ok closing_pattern gs"
  obtains g0 g2 where "gs = [g0, ''});'', g2, []]" "list_all is_space g0" "list_all is_space g2"
  using assms unfolding closing_pattern_def by (auto simp: list_all2_Cons1)

lemma dropWhile_space_lit:
  "list_all is_space g0 \<Longrightarrow> dropWhile is_space (g0 @ ''});'') = ''});''"
  by (induction g0) (simp_all add: not_space_chars)

lemma special_form:
  assumes "dropWhile is_space v = ''});''"
  shows "v = takeWhile is_space v @ ''});''" "list_all is_space (takeWhile is_space v)"
proof -
  from assms show "v = takeWhile is_space v @ ''});''" by (metis takeWhile_dropWhile_id)
  show "list_all is_space (takeWhile is_space v)"
    by (simp add: list_all_iff) (meson set_takeWhileD)
qed

lemma closing_rest:
  assumes m: "rmatch closing_pattern v = Some (gs, r0)" and v: "v \<noteq> []" "\<not> is_space (last v)"
    and ns: "dropWhile is_space v \<noteq> ''});''"
  shows "r0 \<noteq> [] \<and> hd r0 = newline \<and> \<not> is_space (last r0) \<and> suffix r0 v \<and> length r0 < length v"
proof -
  from rmatch_sound[OF m] have s: "list_all2 seg_ok closing_pattern gs" "v = concat gs @ r0" by auto
  from s(1) obtain g0 g2 where g: "gs = [g0, ''});'', g2, []]" "list_all is_space g0"
    "list_all is_space g2" by (rule closing_valid_shape)
  have ne: "r0 \<noteq> []"
  proof
    assume "r0 = []"
    with s(2) g(1) have e: "v = g0 @ ''});'' @ g2" by simp
    have "g2 = []"
    proof (rule ccontr)
      assume "g2 \<noteq> []"
      with e have "last v = last g2" by simp
      with \<open>g2 \<noteq> []\<close> g(3) have "is_space (last v)" by (metis last_in_set list_all_iff)
      with v(2) show False by simp
    qed
    with e have "v = g0 @ ''});''" by simp
    with dropWhile_space_lit[OF g(2)] ns show False by simp
  qed
  from rmatch_eol_last[OF m] ne have "hd r0 = newline" by (simp add: closing_pattern_def)
  moreover from s(2) ne v(2) have "\<not> is_space (last r0)" by simp
  moreover from s(2) have "suffix r0 v" by (simp add: suffix_def)
  moreover from closing_nonempty[OF m] have "length r0 < length v" .
  ultimately show ?thesis using ne by simp
qed

lemma suffix_lit_rest:
  assumes "suffix r0 v" "r0 \<noteq> []" "hd r0 = newline"
  shows "suffix ''});'' r0 \<longleftrightarrow> suffix ''});'' v"
proof
  assume "suffix ''});'' r0"
  with assms(1) show "suffix ''});'' v" by (auto simp: suffix_def)
next
  assume a: "suffix ''});'' v"
  from suffix_same_cases[OF a assms(1)] show "suffix ''});'' r0"
  proof
    assume "suffix r0 ''});''"
    then have "set r0 \<subseteq> set ''});''" by (rule set_mono_suffix)
    with assms(2) have "hd r0 \<in> set ''});''" using hd_in_set by blast
    with assms(3) show ?thesis by (simp add: newline_def)
  qed
qed

text \<open>The substitution of the closing tokens in a text \<open>A\<close> that stands before a text \<open>T\<close>,
  when a \<^verbatim>\<open>});\<close> at the end of \<open>A\<close> ends its line in \<open>A @ T\<close>.\<close>

lemma closing_sub_line:
  assumes T: "T = [] \<or> (hd T \<noteq> CHR '')'' \<and> hd T \<noteq> CHR '';'')"
    and E: "rmatch [Star Space, Eol] T = Some ([w, []], r)"
  shows "A = [] \<or> \<not> is_space (last A) \<Longrightarrow>
         re_sub closing_pattern (\<lambda>gs. Inr closing_text) (A @ T)
         = bind_e (re_sub closing_pattern (\<lambda>gs. Inr closing_text) A) (\<lambda>a.
             bind_e (re_sub closing_pattern (\<lambda>gs. Inr closing_text)
                       (if suffix ''});'' A then r else T)) (\<lambda>u. Inr (a @ u)))"
proof (induction "length A" arbitrary: A rule: less_induct)
  case less
  let ?f = "\<lambda>gs. Inr closing_text :: error + string"
  let ?cs = "re_sub closing_pattern ?f"
  show ?case
  proof (cases A)
    case Nil
    then show ?thesis by (simp add: closing_sub_empty bind_e_Inr_id del: re_sub.simps)
  next
    case (Cons x xs)
    with less.prems have A: "A \<noteq> []" "\<not> is_space (last A)" by auto
    have xs: "xs = [] \<or> \<not> is_space (last xs)" using A Cons by (cases xs) auto
    show ?thesis
    proof (cases "dropWhile is_space A = ''});''")
      case True
      note sf = special_form[OF True]
      have 1: "rmatch closing_pattern (A @ T) = Some ([takeWhile is_space A, ''});'', w, []], r)"
        using closing_at_final[OF sf(2), of T] E sf(1) by (metis add_seg.simps append_assoc option.simps(9))
      have 2: "rmatch closing_pattern A = Some ([takeWhile is_space A, ''});'', [], []], [])"
        using closing_at_final[OF sf(2), of "[]"] sf(1) by simp
      have 3: "suffix ''});'' A" using sf(1) by (metis suffixI)
      from re_sub_match[where f="?f", OF 1 closing_nonempty[OF 1]]
      have 4: "?cs (A @ T) = bind_e (?cs r) (\<lambda>u. Inr (closing_text @ u))" by simp
      from re_sub_match[where f="?f", OF 2 closing_nonempty[OF 2]]
      have 5: "?cs A = Inr closing_text" by (simp add: closing_sub_empty del: re_sub.simps)
      from 3 4 5 show ?thesis by simp
    next
      case False
      note ctx = closing_other[OF A False T]
      show ?thesis
      proof (cases "rmatch closing_pattern A")
        case None
        with ctx have n: "rmatch closing_pattern (A @ T) = None" by simp
        have s: "suffix ''});'' xs \<longleftrightarrow> suffix ''});'' A"
        proof -
          have "A \<noteq> ''});''" using False by (auto simp: not_space_chars)
          then show ?thesis using Cons by (auto simp: suffix_Cons)
        qed
        from less.hyps[of xs, OF _ xs] Cons
        have ih: "?cs (xs @ T) = bind_e (?cs xs) (\<lambda>a.
             bind_e (?cs (if suffix ''});'' xs then r else T)) (\<lambda>u. Inr (a @ u)))" by simp
        obtain a where a: "?cs xs = Inr a" using closing_sub_total by blast
        obtain u where u: "?cs (if suffix ''});'' xs then r else T) = Inr u"
          using closing_sub_total by blast
        from n None Cons have "?cs (A @ T) = bind_e (?cs (xs @ T)) (\<lambda>u. Inr (x # u))"
          "?cs A = bind_e (?cs xs) (\<lambda>u. Inr (x # u))" by simp_all
        with ih a u s show ?thesis by simp
      next
        case (Some m)
        obtain gs r0 where m: "rmatch closing_pattern A = Some (gs, r0)" using Some by (cases m) auto
        from closing_rest[OF m A False] have r0: "r0 \<noteq> []" "hd r0 = newline"
          "\<not> is_space (last r0)" "suffix r0 A" "length r0 < length A" by auto
        from ctx m have mt: "rmatch closing_pattern (A @ T) = Some (gs, r0 @ T)" by simp
        from less.hyps[OF r0(5)] r0(3)
        have ih: "?cs (r0 @ T) = bind_e (?cs r0) (\<lambda>a.
             bind_e (?cs (if suffix ''});'' r0 then r else T)) (\<lambda>u. Inr (a @ u)))" by simp
        note s = suffix_lit_rest[OF r0(4,1,2)]
        obtain a where a: "?cs r0 = Inr a" using closing_sub_total by blast
        obtain u where u: "?cs (if suffix ''});'' r0 then r else T) = Inr u"
          using closing_sub_total by blast
        from re_sub_match[where f="?f", OF mt closing_nonempty[OF mt]]
        have 1: "?cs (A @ T) = bind_e (?cs (r0 @ T)) (\<lambda>u. Inr (closing_text @ u))" by simp
        from re_sub_match[where f="?f", OF m closing_nonempty[OF m]]
        have 2: "?cs A = bind_e (?cs r0) (\<lambda>u. Inr (closing_text @ u))" by simp
        from 1 2 ih a u s show ?thesis by simp
      qed
    qed
  qed
qed

text \<open>The same when \<open>T\<close> keeps a \<^verbatim>\<open>});\<close> at the end of \<open>A\<close> from ending its line: what the
  substitution makes of \<open>A\<close> is the same before every such \<open>T\<close>.\<close>

lemma closing_sub_blocked:
  "A = [] \<or> \<not> is_space (last A) \<Longrightarrow>
   \<exists>a. \<forall>T. T \<noteq> [] \<and> hd T \<noteq> CHR '')'' \<and> hd T \<noteq> CHR '';'' \<and> rmatch [Star Space, Eol] T = None
          \<longrightarrow> re_sub closing_pattern (\<lambda>gs. Inr closing_text) (A @ T)
              = bind_e (re_sub closing_pattern (\<lambda>gs. Inr closing_text) T) (\<lambda>u. Inr (a @ u))"
proof (induction "length A" arbitrary: A rule: less_induct)
  case less
  let ?f = "\<lambda>gs. Inr closing_text :: error + string"
  let ?cs = "re_sub closing_pattern ?f"
  let ?B = "\<lambda>T. T \<noteq> [] \<and> hd T \<noteq> CHR '')'' \<and> hd T \<noteq> CHR '';'' \<and> rmatch [Star Space, Eol] T = None"
  show ?case
  proof (cases A)
    case Nil
    then show ?thesis by (intro exI[of _ "[]"]) (simp add: bind_e_Inr_id)
  next
    case (Cons x xs)
    with less.prems have A: "A \<noteq> []" "\<not> is_space (last A)" by auto
    have xs: "xs = [] \<or> \<not> is_space (last xs)" using A Cons by (cases xs) auto
    from less.hyps[of xs, OF _ xs] Cons obtain a' where
      a': "\<And>T. ?B T \<Longrightarrow> ?cs (xs @ T) = bind_e (?cs T) (\<lambda>u. Inr (a' @ u))" by auto
    have step: "\<exists>a. \<forall>T. ?B T \<longrightarrow> ?cs (A @ T) = bind_e (?cs T) (\<lambda>u. Inr (a @ u))"
      if n: "\<And>T. ?B T \<Longrightarrow> rmatch closing_pattern (A @ T) = None"
    proof (intro exI[of _ "x # a'"] allI impI)
      fix T assume B: "?B T"
      from n[OF B] Cons have "?cs (A @ T) = bind_e (?cs (xs @ T)) (\<lambda>u. Inr (x # u))" by simp
      with a'[OF B] show "?cs (A @ T) = bind_e (?cs T) (\<lambda>u. Inr ((x # a') @ u))"
        by (cases "?cs T") simp_all
    qed
    show ?thesis
    proof (cases "dropWhile is_space A = ''});''")
      case True
      note sf = special_form[OF True]
      show ?thesis
      proof (rule step)
        fix T assume B: "?B T"
        from closing_at_final[OF sf(2), of T] B sf(1)
        show "rmatch closing_pattern (A @ T) = None" by (metis append_assoc option.simps(8))
      qed
    next
      case False
      show ?thesis
      proof (cases "rmatch closing_pattern A")
        case None
        show ?thesis
        proof (rule step)
          fix T assume B: "?B T"
          then have "T = [] \<or> (hd T \<noteq> CHR '')'' \<and> hd T \<noteq> CHR '';'')" by simp
          from closing_other[OF A False this] None
          show "rmatch closing_pattern (A @ T) = None" by simp
        qed
      next
        case (Some m)
        obtain gs r0 where m: "rmatch closing_pattern A = Some (gs, r0)" using Some by (cases m) auto
        from closing_rest[OF m A False] have r0: "\<not> is_space (last r0)" "length r0 < length A"
          by auto
        from less.hyps[OF r0(2)] r0(1) obtain a'' where
          a'': "\<And>T. ?B T \<Longrightarrow> ?cs (r0 @ T) = bind_e (?cs T) (\<lambda>u. Inr (a'' @ u))" by auto
        show ?thesis
        proof (intro exI[of _ "closing_text @ a''"] allI impI)
          fix T assume B: "?B T"
          then have "T = [] \<or> (hd T \<noteq> CHR '')'' \<and> hd T \<noteq> CHR '';'')" by simp
          from closing_other[OF A False this] m
          have mt: "rmatch closing_pattern (A @ T) = Some (gs, r0 @ T)" by simp
          from re_sub_match[where f="?f", OF mt closing_nonempty[OF mt]]
          have "?cs (A @ T) = bind_e (?cs (r0 @ T)) (\<lambda>u. Inr (closing_text @ u))" by simp
          with a''[OF B] show "?cs (A @ T) = bind_e (?cs T) (\<lambda>u. Inr ((closing_text @ a'') @ u))"
            by (cases "?cs T") simp_all
        qed
      qed
    qed
  qed
qed

lemma line_end_hd: "line_end post \<Longrightarrow> post = [] \<or> hd post = newline"
  by (auto simp: line_end_def)

lemma method_sub_line_end:
  assumes "list_all is_space ws2" "line_end post"
  shows "\<exists>post'. re_sub method_pattern replace_method (ws2 @ post) = Inr (ws2 @ post')
           \<and> line_end post'"
proof (cases "post = []")
  case True
  from method_sub_space[OF assms(1), of "[]"] True show ?thesis by (auto simp: line_end_def)
next
  case False
  with assms(2) obtain ws3 c rest where p: "post = newline # ws3 @ c # rest" "list_all is_space ws3"
    "newline \<notin> set ws3" "\<not> is_space c" by (auto simp: line_end_def)
  have "list_all is_space (ws2 @ newline # ws3)" using assms(1) p(2) is_space_newline by simp
  from method_sub_space[OF this, of "c # rest"] p(4) obtain X' where
    X: "re_sub method_pattern replace_method ((ws2 @ newline # ws3) @ c # rest)
        = Inr ((ws2 @ newline # ws3) @ X')" "X' \<noteq> []" "\<not> is_space (hd X')" by auto
  from X(2) obtain c' rest' where "X' = c' # rest'" by (cases X') auto
  with X(3) p(2,3) have "line_end (newline # ws3 @ X')" unfolding line_end_def by auto
  with X(1) p(1) show ?thesis by (intro exI[of _ "newline # ws3 @ X'"]) simp
qed

lemma closing_sub_at:
  assumes "list_all is_space ws1" "list_all is_space ws2" "line_end post"
    "re_sub closing_pattern (\<lambda>gs. Inr closing_text) post = Inr b"
  shows "re_sub closing_pattern (\<lambda>gs. Inr closing_text) (ws1 @ ''});'' @ ws2 @ post)
         = Inr (closing_text @ b)"
proof -
  note m = closing_match[OF assms(1-3)]
  from re_sub_match[where f="\<lambda>gs. Inr closing_text", OF m closing_nonempty[OF m]] assms(4)
  show ?thesis by simp
qed

text \<open>
  Closing tokens that end their line, in any text: \<^verbatim>\<open>convert_method\<close> replaces them and the
  whitespace around them by the fixed text, and rewrites the text before and the text after.
\<close>

lemma closing_occurrence:
  assumes ws: "list_all is_space ws1" "list_all is_space ws2"
    and pre: "pre = [] \<or> \<not> is_space (last pre)"
    and post: "line_end post"
  shows "\<exists>a b post'. convert_method (pre @ ws1 @ ''});'' @ ws2 @ post) = Inr (a @ closing_text @ b)
           \<and> (newline \<in> set ws1 \<or> \<not> suffix ''});'' pre \<longrightarrow> convert_method pre = Inr a)
           \<and> (newline \<notin> set ws1 \<longrightarrow> convert_method (pre @ ''}'') = Inr (a @ ''}''))
           \<and> re_sub method_pattern replace_method (ws2 @ post) = Inr (ws2 @ post')
           \<and> line_end post'
           \<and> re_sub closing_pattern (\<lambda>gs. Inr closing_text) post' = Inr b
           \<and> (ws2 = [] \<longrightarrow> convert_method post = Inr b)"
proof -
  let ?f = "\<lambda>gs. Inr closing_text :: error + string"
  let ?cs = "re_sub closing_pattern ?f"
  let ?ms = "re_sub method_pattern replace_method"
  obtain A where A: "?ms pre = Inr A" using method_sub_total by blast
  from method_sub_line_end[OF ws(2) post] obtain post' where
    p': "?ms (ws2 @ post) = Inr (ws2 @ post')" "line_end post'" by blast
  obtain b where b: "?cs post' = Inr b" using closing_sub_total by blast
  let ?T = "ws1 @ ''});'' @ ws2 @ post'"
  from method_sub_closing[OF ws line_end_hd[OF post], of pre] A p'(1)
  have ms: "?ms (pre @ ws1 @ ''});'' @ ws2 @ post) = Inr (A @ ?T)" by simp
  then have cm: "convert_method (pre @ ws1 @ ''});'' @ ws2 @ post) = ?cs (A @ ?T)"
    by (simp add: convert_method_def)
  have cpre: "convert_method pre = ?cs A" using A by (simp add: convert_method_def)
  have Aok: "A = [] \<or> \<not> is_space (last A)"
  proof (cases "pre = []")
    case True
    with A show ?thesis by (simp add: method_pattern_def)
  next
    case False
    with method_sub_last[OF A] pre show ?thesis by simp
  qed
  have Asuf: "suffix ''});'' A \<longleftrightarrow> suffix ''});'' pre"
    by (rule method_sub_suffix[OF A]) simp
  have csT: "?cs ?T = Inr (closing_text @ b)" by (rule closing_sub_at[OF ws p'(2) b])
  have Tok: "?T \<noteq> []" "hd ?T \<noteq> CHR '')''" "hd ?T \<noteq> CHR '';''"
    using ws(1) not_space_chars by (cases ws1; auto)+
  have last: "ws2 = [] \<longrightarrow> convert_method post = Inr b"
    using p'(1) b by (auto simp: convert_method_def)
  show ?thesis
  proof (cases "newline \<in> set ws1")
    case True
    then obtain w1a w1b where w: "ws1 = w1a @ newline # w1b" "newline \<notin> set w1b"
      by (auto dest: split_list_last)
    with ws(1) have sp: "list_all is_space w1a" "list_all is_space w1b" by auto
    let ?r = "newline # w1b @ ''});'' @ ws2 @ post'"
    have E: "rmatch [Star Space, Eol] ?T = Some ([w1a, []], ?r)"
      using star_eol_line[OF sp w(2) not_space_chars(1), of "'');'' @ ws2 @ post'"] w(1) by simp
    have "list_all is_space (newline # w1b)" using sp(2) is_space_newline by simp
    from closing_sub_at[OF this ws(2) p'(2) b]
    have csr: "?cs ?r = Inr (closing_text @ b)" by simp
    obtain a where a: "?cs A = Inr a" using closing_sub_total by blast
    from closing_sub_line[OF _ E Aok] Tok a csr csT
    have "?cs (A @ ?T) = Inr (a @ closing_text @ b)" by (simp del: re_sub.simps)
    with cm cpre a p' b last True show ?thesis by auto
  next
    case False
    have E: "rmatch [Star Space, Eol] ?T = None"
      using star_eol_none[OF ws(1) False not_space_chars(1), of "'');'' @ ws2 @ post'"] by simp
    from closing_sub_blocked[OF Aok] obtain a where
      a: "\<And>T. T \<noteq> [] \<and> hd T \<noteq> CHR '')'' \<and> hd T \<noteq> CHR '';'' \<and> rmatch [Star Space, Eol] T = None
          \<Longrightarrow> ?cs (A @ T) = bind_e (?cs T) (\<lambda>u. Inr (a @ u))" by blast
    from a[of ?T] Tok E csT have 1: "?cs (A @ ?T) = Inr (a @ closing_text @ b)" by simp
    have "?cs (A @ ''}'') = bind_e (?cs ''}'') (\<lambda>u. Inr (a @ u))"
      by (rule a) (simp add: not_space_chars newline_def)
    moreover have "?cs ''}'' = Inr ''}''"
      by (simp add: closing_pattern_def not_space_chars newline_def)
    ultimately have 2: "?cs (A @ ''}'') = Inr (a @ ''}'')" by simp
    have "?ms (pre @ [] @ CHR ''}'' # []) = bind_e (?ms pre) (\<lambda>a.
             bind_e (?ms ([] @ CHR ''}'' # [])) (\<lambda>b. Inr (a @ b)))"
      by (rule method_sub_split) simp_all
    moreover have "?ms ''}'' = Inr ''}''" by (rule method_sub_identity) simp
    ultimately have "?ms (pre @ ''}'') = Inr (A @ ''}'')" using A by simp
    with 2 have 3: "convert_method (pre @ ''}'') = Inr (a @ ''}'')"
      by (simp add: convert_method_def)
    have 4: "convert_method pre = Inr a" if ns: "\<not> suffix ''});'' pre"
    proof -
      have "?cs (A @ ''}'') = bind_e (?cs A) (\<lambda>a. bind_e (?cs ''}'') (\<lambda>b. Inr (a @ b)))"
      proof (rule re_sub_split)
        fix t gs r assume "rmatch closing_pattern t = Some (gs, r)"
        then show "length r < length t" by (rule closing_nonempty)
      next
        fix u v assume uv: "A = u @ v" "v \<noteq> []"
        with Aok have l: "\<not> is_space (last v)" by auto
        from uv ns Asuf have s: "\<not> suffix ''});'' v" by (auto simp: suffix_def)
        show "rmatch closing_pattern (v @ ''}'') = map_option (ext_rest ''}'') (rmatch closing_pattern v)"
          by (rule closing_indep[OF _ uv(2) l s]) simp
      qed
      with 2 \<open>?cs ''}'' = Inr ''}''\<close> have "?cs A = Inr a" by (cases "?cs A") simp_all
      with cpre show ?thesis by simp
    qed
    from cm 1 3 4 p' b last False show ?thesis by auto
  qed
qed

section \<open>Annotations and validation checks in any text\<close>

text \<open>A pattern that begins with a literal text matches only where that text stands.\<close>

lemma lit_absent_none: "\<not> py_in l t \<Longrightarrow> re_search (Str l # ns) t = None"
  by (induction t) auto

lemma no_straddle:
  assumes "l \<noteq> []" "hd l \<notin> set (tl l)" "\<not> py_in l pre" "pre = u @ v" "v \<noteq> []"
  shows "\<not> prefix l (v @ l @ X)"
proof
  assume p: "prefix l (v @ l @ X)"
  show False
  proof (cases "length l \<le> length v")
    case True
    with p have "prefix l v" using prefix_length_prefix[of l "v @ l @ X" v] by simp
    then obtain w where "v = l @ w" by (auto simp: prefix_def)
    with assms(4) have "pre = u @ l @ w" by simp
    with assms(3) show False unfolding py_in_iff by blast
  next
    case False
    then have "prefix v l" using p prefix_length_prefix[of v "v @ l @ X" l] by simp
    then obtain l' where l: "l = v @ l'" by (auto simp: prefix_def)
    with False have ne: "l' \<noteq> []" by auto
    from p l have "prefix l' (l @ X)" by (metis append_assoc same_prefix_prefix)
    moreover from l assms(5) have "length l' \<le> length l" by simp
    ultimately have "prefix l' l" using prefix_length_prefix[of l' "l @ X" l] by simp
    with ne assms(1) have "hd l' = hd l" by (cases l'; cases l) (auto simp: prefix_def)
    moreover from l assms(5) ne have "hd l' \<in> set (tl l)" by (cases v; cases l') auto
    ultimately show False using assms(2) by simp
  qed
qed

lemma lit_sub_skip:
  assumes "l \<noteq> []" "hd l \<notin> set (tl l)" "\<not> py_in l pre"
  shows "re_sub (Str l # ns) f (pre @ l @ X)
         = bind_e (re_sub (Str l # ns) f (l @ X)) (\<lambda>u. Inr (pre @ u))"
proof (rule re_sub_skip)
  fix u v assume "pre = u @ v" "v \<noteq> []"
  from no_straddle[OF assms this, of X] show "rmatch (Str l # ns) (v @ l @ X) = None" by simp
qed

lemma star_nl_none:
  "list_all is_space ws3 \<Longrightarrow> newline \<notin> set ws3 \<Longrightarrow> rest = [] \<or> \<not> is_space (hd rest) \<Longrightarrow>
   rmatch [Star Space, Str [newline]] (ws3 @ rest) = None"
proof (induction ws3)
  case Nil
  then show ?case using is_space_newline by (cases rest) auto
next
  case (Cons x w)
  then show ?case by auto
qed

lemma star_nl_line:
  assumes "list_all is_space ws" "newline \<notin> set (takeWhile is_space r)"
  shows "rmatch [Star Space, Str [newline]] (ws @ newline # r) = Some ([ws, [newline]], r)"
proof -
  have r: "r = takeWhile is_space r @ dropWhile is_space r" by simp
  have "list_all is_space (takeWhile is_space r)"
    by (simp add: list_all_iff) (meson set_takeWhileD)
  moreover have "dropWhile is_space r = [] \<or> \<not> is_space (hd (dropWhile is_space r))"
    by (metis hd_dropWhile)
  ultimately have "rmatch [Star Space, Str [newline]] (takeWhile is_space r @ dropWhile is_space r) = None"
    using assms(2) by (intro star_nl_none)
  with r have n: "rmatch [Star Space, Str [newline]] r = None" by simp
  then have "rmatch [Star Space, Str [newline]] (newline # r) = Some ([[], [newline]], r)"
    using is_space_newline by simp
  from rmatch_Star_take[OF _ this, of ws] assms(1) show ?thesis by simp
qed

text \<open>The match of an annotation and of a validation check.\<close>

lemma validate_match:
  assumes "CHR ''}'' \<notin> set cfg" "list_all is_space ws" "newline \<notin> set (takeWhile is_space r)"
  shows "rmatch validate_pattern (''@Validate({'' @ cfg @ ''})'' @ ws @ newline # r)
         = Some ([''@Validate({'', cfg, ''})'', ws, [newline]], r)"
proof -
  from star_nl_line[OF assms(2,3)]
  have 1: "rmatch [Str ''})'', Star Space, Str [newline]] (''})'' @ ws @ newline # r)
         = Some ([''})'', ws, [newline]], r)" by simp
  have 2: "rmatch [Star (Not CHR ''}''), Str ''})'', Star Space, Str [newline]]
             (cfg @ ''})'' @ ws @ newline # r) = Some ([cfg, ''})'', ws, [newline]], r)"
    by (rule rmatch_Star_run[OF _ _ 1]) (use assms(1) in \<open>simp_all add: cls_Not_all\<close>)
  from 2 show ?thesis by (simp add: validate_pattern_def)
qed

lemma validation_match:
  assumes "CHR '';'' \<notin> set a" "list_all is_space w1" "CHR ''}'' \<notin> set b" "list_all is_space w2"
    "r = [] \<or> \<not> is_space (hd r)"
  shows "rmatch validation_pattern
           (''const validation = this.validateRequest('' @ a @ '';'' @ w1
            @ ''if (!validation.isValid) {'' @ b @ ''}'' @ w2 @ r)
         = Some ([''const validation = this.validateRequest('', a, '';'', w1,
                  ''if (!validation.isValid) {'', b, ''}'', w2], r)"
proof -
  have 1: "rmatch [Star Space] (w2 @ r) = Some ([w2], r)"
    by (rule rmatch_Star_run) (use assms(4,5) in simp_all)
  then have 2: "rmatch [Str ''}'', Star Space] (''}'' @ w2 @ r) = Some ([''}'', w2], r)" by simp
  have 3: "rmatch [Star (Not CHR ''}''), Str ''}'', Star Space] (b @ ''}'' @ w2 @ r)
           = Some ([b, ''}'', w2], r)"
    by (rule rmatch_Star_run[OF _ _ 2]) (use assms(3) in \<open>simp_all add: cls_Not_all\<close>)
  then have 4: "rmatch [Str ''if (!validation.isValid) {'', Star (Not CHR ''}''), Str ''}'', Star Space]
             (''if (!validation.isValid) {'' @ b @ ''}'' @ w2 @ r)
           = Some ([''if (!validation.isValid) {'', b, ''}'', w2], r)" by simp
  have 5: "rmatch [Star Space, Str ''if (!validation.isValid) {'', Star (Not CHR ''}''), Str ''}'',
                   Star Space]
             (w1 @ ''if (!validation.isValid) {'' @ b @ ''}'' @ w2 @ r)
           = Some ([w1, ''if (!validation.isValid) {'', b, ''}'', w2], r)"
    by (rule rmatch_Star_run[OF _ _ 4]) (use assms(2) in \<open>simp_all add: is_space_def\<close>)
  then have 6: "rmatch [Str '';'', Star Space, Str ''if (!validation.isValid) {'',
                   Star (Not CHR ''}''), Str ''}'', Star Space]
             ('';'' @ w1 @ ''if (!validation.isValid) {'' @ b @ ''}'' @ w2 @ r)
           = Some (['';'', w1, ''if (!validation.isValid) {'', b, ''}'', w2], r)" by simp
  have 7: "rmatch [Star (Not CHR '';''), Str '';'', Star Space, Str ''if (!validation.isValid) {'',
                   Star (Not CHR ''}''), Str ''}'', Star Space]
             (a @ '';'' @ w1 @ ''if (!validation.isValid) {'' @ b @ ''}'' @ w2 @ r)
           = Some ([a, '';'', w1, ''if (!validation.isValid) {'', b, ''}'', w2], r)"
    by (rule rmatch_Star_run[OF _ _ 6]) (use assms(1) in \<open>simp_all add: cls_Not_all\<close>)
  from 7 show ?thesis by (simp add: validation_pattern_def)
qed

lemma validate_sub_first:
  assumes "CHR ''}'' \<notin> set cfg" "list_all is_space ws" "newline \<notin> set (takeWhile is_space r)"
    "\<not> py_in ''@Validate({'' pre"
  shows "re_sub validate_pattern (\<lambda>gs. Inr []) (pre @ ''@Validate({'' @ cfg @ ''})'' @ ws @ newline # r)
         = bind_e (re_sub validate_pattern (\<lambda>gs. Inr []) r) (\<lambda>u. Inr (pre @ u))"
proof -
  let ?f = "\<lambda>gs. Inr [] :: error + string"
  note m = validate_match[OF assms(1-3)]
  have ne: "length r < length (''@Validate({'' @ cfg @ ''})'' @ ws @ newline # r)" by simp
  from re_sub_match[where f="?f", OF m ne]
  have 1: "re_sub validate_pattern ?f (''@Validate({'' @ cfg @ ''})'' @ ws @ newline # r)
           = re_sub validate_pattern ?f r" by (simp add: bind_e_Inr_id)
  have "re_sub validate_pattern ?f (pre @ ''@Validate({'' @ (cfg @ ''})'' @ ws @ newline # r))
        = bind_e (re_sub validate_pattern ?f (''@Validate({'' @ (cfg @ ''})'' @ ws @ newline # r)))
            (\<lambda>u. Inr (pre @ u))"
    unfolding validate_pattern_def by (rule lit_sub_skip[OF _ _ assms(4)]) simp_all
  with 1 show ?thesis by simp
qed

lemma validation_sub_first:
  assumes "CHR '';'' \<notin> set a" "list_all is_space w1" "CHR ''}'' \<notin> set b" "list_all is_space w2"
    "r = [] \<or> \<not> is_space (hd r)"
    "\<not> py_in ''const validation = this.validateRequest('' pre"
  shows "re_sub validation_pattern (\<lambda>gs. Inr [])
           (pre @ ''const validation = this.validateRequest('' @ a @ '';'' @ w1
            @ ''if (!validation.isValid) {'' @ b @ ''}'' @ w2 @ r)
         = bind_e (re_sub validation_pattern (\<lambda>gs. Inr []) r) (\<lambda>u. Inr (pre @ u))"
proof -
  let ?f = "\<lambda>gs. Inr [] :: error + string"
  let ?X = "a @ '';'' @ w1 @ ''if (!validation.isValid) {'' @ b @ ''}'' @ w2 @ r"
  note m = validation_match[OF assms(1-5)]
  have ne: "length r < length (''const validation = this.validateRequest('' @ ?X)" by simp
  from re_sub_match[where f="?f", OF m ne]
  have 1: "re_sub validation_pattern ?f (''const validation = this.validateRequest('' @ ?X)
           = re_sub validation_pattern ?f r" by (simp add: bind_e_Inr_id)
  have "re_sub validation_pattern ?f (pre @ ''const validation = this.validateRequest('' @ ?X)
        = bind_e (re_sub validation_pattern ?f (''const validation = this.validateRequest('' @ ?X))
            (\<lambda>u. Inr (pre @ u))"
    unfolding validation_pattern_def by (rule lit_sub_skip[OF _ _ assms(6)]) simp_all
  with 1 show ?thesis by simp
qed

lemma validate_sub_none:
  "\<not> py_in ''@Validate({'' t \<Longrightarrow> re_sub validate_pattern (\<lambda>gs. Inr []) t = Inr t"
  unfolding validate_pattern_def by (rule re_sub_no_match) (rule lit_absent_none)

lemma validation_sub_none:
  "\<not> py_in ''const validation = this.validateRequest('' t \<Longrightarrow>
   re_sub validation_pattern (\<lambda>gs. Inr []) t = Inr t"
  unfolding validation_pattern_def by (rule re_sub_no_match) (rule lit_absent_none)

section \<open>The Body Reconstructor on a method of any body\<close>










section \<open>A whole method in the legacy convention\<close>


section \<open>The claims\<close>

subsection \<open>C1\<close>




subsection \<open>C2\<close>

text \<open>
  C2. On the example of the specification the three stages give a plain \<^verbatim>\<open>async\<close> method
  \<^verbatim>\<open>create\<close> with the parameters \<^verbatim>\<open>(req, res)\<close> and the return type \<^verbatim>\<open>Promise<void>\<close>, whose
  body is one \<^verbatim>\<open>try\<close> block holding the logging call and then \<^verbatim>\<open>doWork(req, res);\<close>; the
  annotation, the validation check and the wrapper are gone.
\<close>

theorem example_end_to_end:
  "pipeline example_input = Inr example_output
   \<and> \<not> py_in ''@Validate'' example_output
   \<and> \<not> py_in ''validation'' example_output
   \<and> \<not> py_in ''asyncHandler'' example_output
   \<and> \<not> py_in ''});'' example_output"
  by code_simp

subsection \<open>C3\<close>

text \<open>
  C3. A text in which none of the patterns matches passes through the three stages and
  through the whole pipeline unchanged. \<^verbatim>\<open>convert_method\<close> returns its input unchanged when
  neither the wrapped-callback pattern nor the pattern of the closing tokens matches.
\<close>

theorem no_op_safety:
  "(re_search method_pattern s = None \<and> re_search closing_pattern s = None
      \<longrightarrow> convert_method s = Inr s)
   \<and> (re_search validate_pattern s = None \<and> re_search validation_pattern s = None
      \<longrightarrow> convert_validation_patterns s = Inr s)
   \<and> (re_search try_pattern s = None \<longrightarrow> fix_try s = Inr s)
   \<and> (re_search method_pattern s = None \<and> re_search closing_pattern s = None
      \<and> re_search validate_pattern s = None \<and> re_search validation_pattern s = None
      \<and> re_search try_pattern s = None \<longrightarrow> pipeline s = Inr s)"
  by (simp add: pipeline_def convert_method_def convert_validation_patterns_def fix_try_def
      re_sub_no_match)

theorem no_op_safety_witness:
  "re_search method_pattern plain_text = None \<and> re_search closing_pattern plain_text = None
   \<and> re_search validate_pattern plain_text = None
   \<and> re_search validation_pattern plain_text = None
   \<and> re_search try_pattern plain_text = None
   \<and> convert_method plain_text = Inr plain_text
   \<and> pipeline plain_text = Inr plain_text"
proof -
  have h: "re_search method_pattern plain_text = None" "re_search closing_pattern plain_text = None"
    "re_search validate_pattern plain_text = None"
    "re_search validation_pattern plain_text = None"
    "re_search try_pattern plain_text = None"
    by code_simp+
  with no_op_safety[of plain_text] show ?thesis by simp
qed

text \<open>
  The absence of the wrapped-callback pattern alone does not keep \<^verbatim>\<open>convert_method\<close> from
  changing the text: the closing tokens are rewritten all the same.
\<close>

theorem signature_absent_closing_rewritten:
  "re_search method_pattern ''x});'' = None
   \<and> convert_method ''x});'' = Inr (''x'' @ closing_text)
   \<and> convert_method ''x});'' \<noteq> Inr ''x});''"
  by code_simp

subsection \<open>C4\<close>




subsection \<open>C5\<close>




subsection \<open>C6\<close>




subsection \<open>C7\<close>

text \<open>
  C7, as the code has it. An annotation \<^verbatim>\<open>@Validate({\<close>, a configuration without a closing
  brace, \<^verbatim>\<open>})\<close>, whitespace and a newline (the last newline before the next character that is
  no whitespace) is deleted from every text, after a text \<open>pre\<close> without \<^verbatim>\<open>@Validate({\<close>; the
  text \<open>pre\<close> stays, with the whitespace that stood before the annotation, and the substitution
  goes on in the text \<open>r\<close> after the newline. A validation check is deleted in the same way:
  the binding \<^verbatim>\<open>const validation = this.validateRequest(\<close>, the text up to the first semicolon,
  whitespace, \<^verbatim>\<open>if (!validation.isValid) {\<close>, the text up to the first closing brace, and all
  whitespace after that brace. When the texts around them hold no further annotation or
  binding, \<^verbatim>\<open>convert_validation_patterns\<close> returns these texts alone: for an annotation, for a
  check, and for an annotation followed by a check.
\<close>

theorem validation_stripping_spans:
  "(CHR ''}'' \<notin> set cfg \<and> list_all is_space ws \<and> newline \<notin> set (takeWhile is_space r)
      \<and> \<not> py_in ''@Validate({'' pre \<longrightarrow>
      re_sub validate_pattern (\<lambda>gs. Inr []) (pre @ ''@Validate({'' @ cfg @ ''})'' @ ws @ [newline] @ r)
        = bind_e (re_sub validate_pattern (\<lambda>gs. Inr []) r) (\<lambda>u. Inr (pre @ u))
      \<and> (\<not> py_in ''@Validate({'' r \<and> \<not> py_in ''const validation = this.validateRequest('' (pre @ r) \<longrightarrow>
           convert_validation_patterns (pre @ ''@Validate({'' @ cfg @ ''})'' @ ws @ [newline] @ r)
             = Inr (pre @ r)))
   \<and> (CHR '';'' \<notin> set a \<and> list_all is_space w1 \<and> CHR ''}'' \<notin> set b \<and> list_all is_space w2
      \<and> (r = [] \<or> \<not> is_space (hd r))
      \<and> \<not> py_in ''const validation = this.validateRequest('' pre \<longrightarrow>
      re_sub validation_pattern (\<lambda>gs. Inr [])
          (pre @ ''const validation = this.validateRequest('' @ a @ '';'' @ w1
           @ ''if (!validation.isValid) {'' @ b @ ''}'' @ w2 @ r)
        = bind_e (re_sub validation_pattern (\<lambda>gs. Inr []) r) (\<lambda>u. Inr (pre @ u))
      \<and> (\<not> py_in ''@Validate({''
             (pre @ ''const validation = this.validateRequest('' @ a @ '';'' @ w1
              @ ''if (!validation.isValid) {'' @ b @ ''}'' @ w2 @ r)
           \<and> \<not> py_in ''const validation = this.validateRequest('' r \<longrightarrow>
           convert_validation_patterns
               (pre @ ''const validation = this.validateRequest('' @ a @ '';'' @ w1
                @ ''if (!validation.isValid) {'' @ b @ ''}'' @ w2 @ r)
             = Inr (pre @ r)))
   \<and> (CHR ''}'' \<notin> set cfg \<and> list_all is_space ws \<and> newline \<notin> set (takeWhile is_space q)
      \<and> CHR '';'' \<notin> set a \<and> list_all is_space w1 \<and> CHR ''}'' \<notin> set b \<and> list_all is_space w2
      \<and> (r = [] \<or> \<not> is_space (hd r))
      \<and> \<not> py_in ''@Validate({'' pre
      \<and> \<not> py_in ''@Validate({''
             (q @ ''const validation = this.validateRequest('' @ a @ '';'' @ w1
              @ ''if (!validation.isValid) {'' @ b @ ''}'' @ w2 @ r)
      \<and> \<not> py_in ''const validation = this.validateRequest('' (pre @ q)
      \<and> \<not> py_in ''const validation = this.validateRequest('' r \<longrightarrow>
      convert_validation_patterns
          (pre @ ''@Validate({'' @ cfg @ ''})'' @ ws @ [newline] @ q
           @ ''const validation = this.validateRequest('' @ a @ '';'' @ w1
           @ ''if (!validation.isValid) {'' @ b @ ''}'' @ w2 @ r)
        = Inr (pre @ q @ r))"
proof (intro conjI impI)
  assume h: "CHR ''}'' \<notin> set cfg \<and> list_all is_space ws \<and> newline \<notin> set (takeWhile is_space r)
      \<and> \<not> py_in ''@Validate({'' pre"
  then have 1: "re_sub validate_pattern (\<lambda>gs. Inr []) (pre @ ''@Validate({'' @ cfg @ ''})'' @ ws @ newline # r)
        = bind_e (re_sub validate_pattern (\<lambda>gs. Inr []) r) (\<lambda>u. Inr (pre @ u))"
    by (intro validate_sub_first) auto
  then show "re_sub validate_pattern (\<lambda>gs. Inr []) (pre @ ''@Validate({'' @ cfg @ ''})'' @ ws @ [newline] @ r)
        = bind_e (re_sub validate_pattern (\<lambda>gs. Inr []) r) (\<lambda>u. Inr (pre @ u))" by simp
  assume "\<not> py_in ''@Validate({'' r \<and> \<not> py_in ''const validation = this.validateRequest('' (pre @ r)"
  with 1 validate_sub_none[of r] validation_sub_none[of "pre @ r"]
  show "convert_validation_patterns (pre @ ''@Validate({'' @ cfg @ ''})'' @ ws @ [newline] @ r)
             = Inr (pre @ r)"
    by (simp add: convert_validation_patterns_def)
next
  let ?C = "''const validation = this.validateRequest('' @ a @ '';'' @ w1
           @ ''if (!validation.isValid) {'' @ b @ ''}'' @ w2 @ r"
  assume h: "CHR '';'' \<notin> set a \<and> list_all is_space w1 \<and> CHR ''}'' \<notin> set b \<and> list_all is_space w2
      \<and> (r = [] \<or> \<not> is_space (hd r))
      \<and> \<not> py_in ''const validation = this.validateRequest('' pre"
  then show 1: "re_sub validation_pattern (\<lambda>gs. Inr []) (pre @ ?C)
        = bind_e (re_sub validation_pattern (\<lambda>gs. Inr []) r) (\<lambda>u. Inr (pre @ u))"
    by (intro validation_sub_first) auto
  assume "\<not> py_in ''@Validate({'' (pre @ ?C)
           \<and> \<not> py_in ''const validation = this.validateRequest('' r"
  with 1 validate_sub_none[of "pre @ ?C"] validation_sub_none[of r]
  show "convert_validation_patterns (pre @ ?C) = Inr (pre @ r)"
    by (simp add: convert_validation_patterns_def)
next
  let ?C = "''const validation = this.validateRequest('' @ a @ '';'' @ w1
           @ ''if (!validation.isValid) {'' @ b @ ''}'' @ w2 @ r"
  assume h: "CHR ''}'' \<notin> set cfg \<and> list_all is_space ws \<and> newline \<notin> set (takeWhile is_space q)
      \<and> CHR '';'' \<notin> set a \<and> list_all is_space w1 \<and> CHR ''}'' \<notin> set b \<and> list_all is_space w2
      \<and> (r = [] \<or> \<not> is_space (hd r))
      \<and> \<not> py_in ''@Validate({'' pre
      \<and> \<not> py_in ''@Validate({'' (q @ ?C)
      \<and> \<not> py_in ''const validation = this.validateRequest('' (pre @ q)
      \<and> \<not> py_in ''const validation = this.validateRequest('' r"
  have "takeWhile is_space (q @ CHR ''c'' # (''onst validation = this.validateRequest('' @ a @ '';'' @ w1
           @ ''if (!validation.isValid) {'' @ b @ ''}'' @ w2 @ r)) = takeWhile is_space q"
    by (rule takeWhile_tail) (simp add: is_space_def)
  with h have nl: "newline \<notin> set (takeWhile is_space (q @ ?C))" by simp
  from h nl have "re_sub validate_pattern (\<lambda>gs. Inr []) (pre @ ''@Validate({'' @ cfg @ ''})'' @ ws @ newline # (q @ ?C))
        = bind_e (re_sub validate_pattern (\<lambda>gs. Inr []) (q @ ?C)) (\<lambda>u. Inr (pre @ u))"
    by (intro validate_sub_first) auto
  with h validate_sub_none[of "q @ ?C"]
  have 1: "re_sub validate_pattern (\<lambda>gs. Inr []) (pre @ ''@Validate({'' @ cfg @ ''})'' @ ws @ [newline] @ q @ ?C)
        = Inr ((pre @ q) @ ?C)" by simp
  from h have "re_sub validation_pattern (\<lambda>gs. Inr []) ((pre @ q) @ ?C)
        = bind_e (re_sub validation_pattern (\<lambda>gs. Inr []) r) (\<lambda>u. Inr ((pre @ q) @ u))"
    by (intro validation_sub_first) auto
  with h validation_sub_none[of r]
  have 2: "re_sub validation_pattern (\<lambda>gs. Inr []) ((pre @ q) @ ?C) = Inr (pre @ q @ r)" by simp
  from 1 2 show "convert_validation_patterns (pre @ ''@Validate({'' @ cfg @ ''})'' @ ws @ [newline] @ q @ ?C)
        = Inr (pre @ q @ r)"
    by (simp only: convert_validation_patterns_def bind_e.simps)
qed

theorem validation_stripping_spans_witness:
  "CHR ''}'' \<notin> set ''schema: X'' \<and> list_all is_space [] \<and> newline \<notin> set (takeWhile is_space ''  foo();'')
   \<and> \<not> py_in ''@Validate({'' ''  '' \<and> \<not> py_in ''@Validate({'' ''  foo();''
   \<and> \<not> py_in ''const validation = this.validateRequest('' (''  '' @ ''  foo();'')
   \<and> convert_validation_patterns ''  @Validate({schema: X})\<newline>  foo();'' = Inr ''    foo();''
   \<and> CHR '';'' \<notin> set ''req)'' \<and> list_all is_space '' '' \<and> CHR ''}'' \<notin> set '' return; ''
   \<and> list_all is_space ''\<newline>  '' \<and> \<not> is_space (hd ''next();'')
   \<and> \<not> py_in ''const validation = this.validateRequest('' ''x; ''
   \<and> \<not> py_in ''const validation = this.validateRequest('' ''next();''
   \<and> convert_validation_patterns
        ''x; const validation = this.validateRequest(req); if (!validation.isValid) { return; }\<newline>  next();''
       = Inr ''x; next();''
   \<and> convert_validation_patterns
        ''{\<newline>  @Validate({schema: X})\<newline>  const validation = this.validateRequest(req); if (!validation.isValid) { return; }\<newline>  this.logRequest(req);''
       = Inr ''{\<newline>    this.logRequest(req);''"
proof -
  have h1: "CHR ''}'' \<notin> set ''schema: X''" "list_all is_space []"
    "newline \<notin> set (takeWhile is_space ''  foo();'')"
    "\<not> py_in ''@Validate({'' ''  ''" "\<not> py_in ''@Validate({'' ''  foo();''"
    "\<not> py_in ''const validation = this.validateRequest('' (''  '' @ ''  foo();'')"
    by code_simp+
  have h2: "CHR '';'' \<notin> set ''req)''" "list_all is_space '' ''" "CHR ''}'' \<notin> set '' return; ''"
    "list_all is_space ''\<newline>  ''" "\<not> is_space (hd ''next();'')"
    "\<not> py_in ''const validation = this.validateRequest('' ''x; ''"
    "\<not> py_in ''const validation = this.validateRequest('' ''next();''"
    "\<not> py_in ''@Validate({''
         (''x; '' @ ''const validation = this.validateRequest('' @ ''req)'' @ '';'' @ '' ''
          @ ''if (!validation.isValid) {'' @ '' return; '' @ ''}'' @ ''\<newline>  '' @ ''next();'')"
    by code_simp+
  have h3: "newline \<notin> set (takeWhile is_space ''  '')" "\<not> is_space (hd ''this.logRequest(req);'')"
    "\<not> py_in ''@Validate({'' ''{\<newline>  ''"
    "\<not> py_in ''@Validate({''
         (''  '' @ ''const validation = this.validateRequest('' @ ''req)'' @ '';'' @ '' ''
          @ ''if (!validation.isValid) {'' @ '' return; '' @ ''}'' @ ''\<newline>  ''
          @ ''this.logRequest(req);'')"
    "\<not> py_in ''const validation = this.validateRequest('' (''{\<newline>  '' @ ''  '')"
    "\<not> py_in ''const validation = this.validateRequest('' ''this.logRequest(req);''"
    by code_simp+
  from validation_stripping_spans[where pre="''  ''" and cfg="''schema: X''" and ws="[]"
      and r="''  foo();''"] h1
  have 1: "convert_validation_patterns (''  '' @ ''@Validate({'' @ ''schema: X'' @ ''})'' @ []
           @ [newline] @ ''  foo();'') = Inr (''  '' @ ''  foo();'')"
    by blast
  from validation_stripping_spans[where pre="''x; ''" and a="''req)''" and ?w1.0="'' ''"
      and b="'' return; ''" and ?w2.0="''\<newline>  ''" and r="''next();''"] h2
  have 2: "convert_validation_patterns
          (''x; '' @ ''const validation = this.validateRequest('' @ ''req)'' @ '';'' @ '' ''
           @ ''if (!validation.isValid) {'' @ '' return; '' @ ''}'' @ ''\<newline>  '' @ ''next();'')
        = Inr (''x; '' @ ''next();'')"
    by blast
  from validation_stripping_spans[where pre="''{\<newline>  ''" and cfg="''schema: X''" and ws="[]"
      and q="''  ''" and a="''req)''" and ?w1.0="'' ''" and b="'' return; ''"
      and ?w2.0="''\<newline>  ''" and r="''this.logRequest(req);''"] h1(1,2) h2(1-4) h3
  have 3: "convert_validation_patterns
          (''{\<newline>  '' @ ''@Validate({'' @ ''schema: X'' @ ''})'' @ [] @ [newline] @ ''  ''
           @ ''const validation = this.validateRequest('' @ ''req)'' @ '';'' @ '' ''
           @ ''if (!validation.isValid) {'' @ '' return; '' @ ''}'' @ ''\<newline>  ''
           @ ''this.logRequest(req);'')
        = Inr (''{\<newline>  '' @ ''  '' @ ''this.logRequest(req);'')"
    by blast
  from 1 have e1: "convert_validation_patterns ''  @Validate({schema: X})\<newline>  foo();'' = Inr ''    foo();''"
    by (simp add: newline_def)
  from 2 have e2: "convert_validation_patterns
        ''x; const validation = this.validateRequest(req); if (!validation.isValid) { return; }\<newline>  next();''
       = Inr ''x; next();''" by simp
  from 3 have e3: "convert_validation_patterns
        ''{\<newline>  @Validate({schema: X})\<newline>  const validation = this.validateRequest(req); if (!validation.isValid) { return; }\<newline>  this.logRequest(req);''
       = Inr ''{\<newline>    this.logRequest(req);''" by (simp add: newline_def)
  from h1 h2(1-7) e1 e2 e3 show ?thesis by (intro conjI)
qed

text \<open>
  The check is not removed through its balanced close: with a nested block the text after
  the first closing brace stays. The indentation before an annotation stays and joins the
  next line, and an annotation with nested braces is not removed.
\<close>

theorem validation_check_not_balanced:
  "convert_validation_patterns nested_check_text = Inr ''x; return; } next();''
   \<and> convert_validation_patterns annotated_text = Inr ''    foo();''
   \<and> convert_validation_patterns ''@Validate({a: {b: 1}})\<newline>foo();''
       = Inr ''@Validate({a: {b: 1}})\<newline>foo();''"
  by code_simp

subsection \<open>C8\<close>

text \<open>
  C8. Every stage returns a text for every input and never raises, and a substitution
  whose pattern is found nowhere returns the text itself.
\<close>

theorem stage_totality:
  "(\<exists>t. convert_method s = Inr t) \<and> (\<exists>t. convert_validation_patterns s = Inr t)
   \<and> (\<exists>t. fix_try s = Inr t) \<and> (\<exists>t. pipeline s = Inr t)
   \<and> (\<forall>p f. re_search p s = None \<longrightarrow> re_sub p f s = Inr s)"
  using convert_method_total convert_validation_patterns_total fix_try_total pipeline_total
    re_sub_no_match by blast

theorem stage_totality_witness:
  "(\<exists>t. convert_method plain_text = Inr t) \<and> (\<exists>t. pipeline plain_text = Inr t)
   \<and> re_search try_pattern plain_text = None
   \<and> re_sub try_pattern fix_try_blocks plain_text = Inr plain_text"
proof -
  have h: "re_search try_pattern plain_text = None" by code_simp
  with stage_totality[of plain_text] show ?thesis by blast
qed

subsection \<open>C9\<close>

text \<open>
  C9. For a configured path that does not exist, the run prints the warning for it, opens
  it neither for reading nor for writing, raises nothing, and still handles every other
  configured path: an existing one is announced, read and holds the text of the pipeline
  afterwards, a missing one gets its warning.
\<close>

theorem missing_file_handling:
  assumes "p \<in> set controller_files" and "fs p = None"
  shows "\<exists>w. main fs = Inr w
           \<and> Print (Not_found p) \<in> set (trace w)
           \<and> Open_read p \<notin> set (trace w) \<and> Open_write p \<notin> set (trace w)
           \<and> files w p = None
           \<and> (\<forall>q\<in>set controller_files. \<forall>c. fs q = Some c \<longrightarrow>
                Print (Processing q) \<in> set (trace w) \<and> Open_read q \<in> set (trace w)
                \<and> (\<exists>c'. pipeline c = Inr c' \<and> files w q = Some c'))
           \<and> (\<forall>q\<in>set controller_files. fs q = None \<longrightarrow>
                Print (Not_found q) \<in> set (trace w) \<and> Open_read q \<notin> set (trace w)
                \<and> Open_write q \<notin> set (trace w))"
proof -
  let ?w0 = "\<lparr>files = fs, trace = []\<rparr>"
  obtain upd' w' where ml: "main_loop controller_files [] ?w0 = Inr (upd', w')"
    using main_loop_total[of controller_files "[]" ?w0] by auto
  define tail where "tail = (if upd' \<noteq> [] then Print (Summary (length upd'))
                    # map (\<lambda>filepath. Print (Summary_item filepath)) upd' else [Print None_updated])"
  define w where "w = emit tail w'"
  have mw: "main fs = Inr w" using ml by (simp add: main_def w_def tail_def)
  have fw: "files w = files w'" by (simp add: w_def emit_def)
  have tw: "set (trace w) = set (trace w') \<union> set tail" by (simp add: w_def emit_def)
  have tl: "\<And>q. Open_read q \<notin> set tail \<and> Open_write q \<notin> set tail"
    by (auto simp: tail_def)
  have missing: "Print (Not_found q) \<in> set (trace w) \<and> Open_read q \<notin> set (trace w)
                \<and> Open_write q \<notin> set (trace w) \<and> files w q = None"
    if "q \<in> set controller_files" "fs q = None" for q
  proof -
    from main_loop_missing[OF ml that(1)] that(2) have 1: "Print (Not_found q) \<in> set (trace w)"
      by (simp add: tw)
    from main_loop_opens[OF ml, of q] that(2)
    have 2: "Open_read q \<notin> set (trace w') \<and> Open_write q \<notin> set (trace w')" by auto
    from main_loop_files_None[OF ml, of q] that(2) have 3: "files w q = None" by (simp add: fw)
    from 1 2 3 tl[of q] show ?thesis by (simp add: tw)
  qed
  have present: "Print (Processing q) \<in> set (trace w) \<and> Open_read q \<in> set (trace w)
                \<and> (\<exists>c'. pipeline c = Inr c' \<and> files w q = Some c')"
    if "q \<in> set controller_files" "fs q = Some c" for q c
  proof -
    from main_loop_present[OF ml that(1)] that(2)
    have 1: "Print (Processing q) \<in> set (trace w) \<and> Open_read q \<in> set (trace w)"
      by (simp add: tw)
    from main_loop_content[OF ml controller_files_distinct that(1), of c] that(2)
    have "\<exists>c'. pipeline c = Inr c' \<and> files w q = Some c'" by (simp add: fw)
    with 1 show ?thesis by simp
  qed
  from mw missing[OF assms] missing present show ?thesis by blast
qed

theorem missing_file_handling_witness:
  "''src/controllers/chat/ChatController.modern.ts'' \<in> set controller_files
   \<and> example_files ''src/controllers/chat/ChatController.modern.ts'' = None
   \<and> (\<exists>w. main example_files = Inr w
        \<and> Print (Not_found ''src/controllers/chat/ChatController.modern.ts'') \<in> set (trace w)
        \<and> Open_read ''src/controllers/chat/ChatController.modern.ts'' \<notin> set (trace w)
        \<and> Open_write ''src/controllers/chat/ChatController.modern.ts'' \<notin> set (trace w)
        \<and> Print (Processing ''src/controllers/user/UserController.modern.ts'') \<in> set (trace w)
        \<and> files w ''src/controllers/user/UserController.modern.ts'' = Some (''x'' @ closing_text))"
proof -
  let ?chat = "''src/controllers/chat/ChatController.modern.ts''"
  let ?user = "''src/controllers/user/UserController.modern.ts''"
  have a: "?chat \<in> set controller_files" by (simp add: controller_files_def)
  have b: "example_files ?chat = None" by (simp add: example_files_def)
  have c: "?user \<in> set controller_files" by (simp add: controller_files_def)
  have d: "example_files ?user = Some ''x});''" by (simp add: example_files_def)
  have e: "pipeline ''x});'' = Inr (''x'' @ closing_text)" by code_simp
  from missing_file_handling[of ?chat example_files, OF a b] obtain w where
    w: "main example_files = Inr w" "Print (Not_found ?chat) \<in> set (trace w)"
      "Open_read ?chat \<notin> set (trace w)" "Open_write ?chat \<notin> set (trace w)"
      "\<forall>q\<in>set controller_files. \<forall>c. example_files q = Some c \<longrightarrow>
                Print (Processing q) \<in> set (trace w) \<and> Open_read q \<in> set (trace w)
                \<and> (\<exists>c'. pipeline c = Inr c' \<and> files w q = Some c')"
    by blast
  from w(5) c d e have "Print (Processing ?user) \<in> set (trace w)"
    "files w ?user = Some (''x'' @ closing_text)" by auto
  with a b w(1-4) show ?thesis by blast
qed

subsection \<open>C10\<close>

text \<open>
  C10. In every text, a \<^verbatim>\<open>});\<close> that ends its line (after the whitespace \<open>ws2\<close> comes the end
  of the text or the newline before a line that is not empty) is replaced by \<^verbatim>\<open>convert_method\<close>,
  together with the whitespace \<open>ws1\<close> before it and the whitespace \<open>ws2\<close> after it, by the fixed
  text of a newline, four spaces and a brace, a newline, two spaces and a brace, whether or not
  the text holds a wrapped callback. The text \<open>pre\<close> before the whitespace and the text \<open>post\<close>
  after it are rewritten on their own: \<open>a\<close> is what \<^verbatim>\<open>convert_method\<close> makes of \<open>pre\<close> (of \<open>pre\<close>
  before a brace, when \<open>pre\<close> ends with a \<^verbatim>\<open>});\<close> on the same line, which does not end its line
  and stays), and \<open>b\<close> is what the substitution of the closing tokens makes of \<open>post\<close> after
  the substitution of the signatures, which is \<^verbatim>\<open>convert_method\<close> of \<open>post\<close> when \<open>ws2\<close> is empty.
\<close>

theorem closing_tokens_fixed_text:
  assumes "list_all is_space ws1" and "list_all is_space ws2"
    and "pre = [] \<or> \<not> is_space (last pre)" and "line_end post"
  shows "\<exists>a b post'.
           convert_method (pre @ ws1 @ ''});'' @ ws2 @ post) = Inr (a @ ''\<newline>    }\<newline>  }'' @ b)
           \<and> (newline \<in> set ws1 \<or> \<not> suffix ''});'' pre \<longrightarrow> convert_method pre = Inr a)
           \<and> (newline \<notin> set ws1 \<longrightarrow> convert_method (pre @ ''}'') = Inr (a @ ''}''))
           \<and> re_sub method_pattern replace_method (ws2 @ post) = Inr (ws2 @ post')
           \<and> re_sub closing_pattern (\<lambda>gs. Inr ''\<newline>    }\<newline>  }'') post' = Inr b
           \<and> (ws2 = [] \<longrightarrow> convert_method post = Inr b)"
proof -
  have c: "closing_text = ''\<newline>    }\<newline>  }''" by (simp add: closing_text_def newline_def)
  from closing_occurrence[OF assms] show ?thesis unfolding c by blast
qed

theorem closing_tokens_fixed_text_witness:
  "list_all is_space ''  '' \<and> list_all is_space '' '' \<and> \<not> is_space (last ''x});'')
   \<and> line_end ''\<newline>next();'' \<and> newline \<notin> set ''  ''
   \<and> convert_method ''x});  }); \<newline>next();'' = Inr ''x});\<newline>    }\<newline>  }\<newline>next();''
   \<and> list_all is_space ''\<newline>'' \<and> \<not> is_space (last ''a = this.asyncHandler(async (r): Promise<void> => {\<newline>  f();'')
   \<and> line_end [] \<and> newline \<in> set ''\<newline>''
   \<and> convert_method ''a = this.asyncHandler(async (r): Promise<void> => {\<newline>  f();\<newline>});''
       = Inr ''async a(r): Promise<void> {\<newline>  try {\<newline>  f();\<newline>    }\<newline>  }''"
proof -
  have h: "list_all is_space ''  ''" "list_all is_space '' ''" "\<not> is_space (last ''x});'')"
    "newline \<notin> set ''  ''" "list_all is_space ''\<newline>''" "list_all is_space []"
    "\<not> is_space (last ''a = this.asyncHandler(async (r): Promise<void> => {\<newline>  f();'')"
    "newline \<in> set ''\<newline>''"
    by code_simp+
  have "\<not> is_space CHR ''n''" by code_simp
  then have le: "line_end ''\<newline>next();''"
    unfolding line_end_def newline_def
    by (intro disjI2 exI[of _ "[]"] exI[of _ "CHR ''n''"] exI[of _ "''ext();''"]) simp
  have le0: "line_end []" by (simp add: line_end_def)
  have c1: "convert_method (''x});'' @ ''}'') = Inr (''x});'' @ ''}'')" by code_simp
  have c2: "re_sub method_pattern replace_method ('' '' @ ''\<newline>next();'') = Inr ('' '' @ ''\<newline>next();'')"
    by code_simp
  have c3: "re_sub closing_pattern (\<lambda>gs. Inr ''\<newline>    }\<newline>  }'') ''\<newline>next();'' = Inr ''\<newline>next();''"
    by code_simp
  from closing_tokens_fixed_text[OF h(1) h(2) disjI2[OF h(3)] le] obtain a b post' where
    t: "convert_method (''x});'' @ ''  '' @ ''});'' @ '' '' @ ''\<newline>next();'')
          = Inr (a @ ''\<newline>    }\<newline>  }'' @ b)"
       "newline \<notin> set ''  '' \<longrightarrow> convert_method (''x});'' @ ''}'') = Inr (a @ ''}'')"
       "re_sub method_pattern replace_method ('' '' @ ''\<newline>next();'') = Inr ('' '' @ post')"
       "re_sub closing_pattern (\<lambda>gs. Inr ''\<newline>    }\<newline>  }'') post' = Inr b"
    by blast
  from t(2) h(4) c1 have a: "a = ''x});''" by simp
  from t(3) c2 have p: "post' = ''\<newline>next();''" by simp
  with t(4) c3 have b: "b = ''\<newline>next();''" by simp
  from t(1) a b have 1: "convert_method ''x});  }); \<newline>next();'' = Inr ''x});\<newline>    }\<newline>  }\<newline>next();''"
    by simp
  have d1: "convert_method ''a = this.asyncHandler(async (r): Promise<void> => {\<newline>  f();''
            = Inr ''async a(r): Promise<void> {\<newline>  try {\<newline>  f();''" by code_simp
  have d2: "re_sub method_pattern replace_method ([] @ []) = Inr []" by code_simp
  have d3: "re_sub closing_pattern (\<lambda>gs. Inr ''\<newline>    }\<newline>  }'') [] = Inr []" by code_simp
  from closing_tokens_fixed_text[OF h(5) h(6) disjI2[OF h(7)] le0] obtain a' b' q where
    u: "convert_method (''a = this.asyncHandler(async (r): Promise<void> => {\<newline>  f();'' @ ''\<newline>''
           @ ''});'' @ [] @ []) = Inr (a' @ ''\<newline>    }\<newline>  }'' @ b')"
       "newline \<in> set ''\<newline>'' \<or> \<not> suffix ''});'' ''a = this.asyncHandler(async (r): Promise<void> => {\<newline>  f();''
          \<longrightarrow> convert_method ''a = this.asyncHandler(async (r): Promise<void> => {\<newline>  f();'' = Inr a'"
       "re_sub method_pattern replace_method ([] @ []) = Inr ([] @ q)"
       "re_sub closing_pattern (\<lambda>gs. Inr ''\<newline>    }\<newline>  }'') q = Inr b'"
    by blast
  from u(2) h(8) d1 have a': "a' = ''async a(r): Promise<void> {\<newline>  try {\<newline>  f();''" by simp
  from u(3) d2 have "q = []" by simp
  with u(4) d3 have b': "b' = []" by simp
  from u(1) a' b' have 2: "convert_method ''a = this.asyncHandler(async (r): Promise<void> => {\<newline>  f();\<newline>});''
       = Inr ''async a(r): Promise<void> {\<newline>  try {\<newline>  f();\<newline>    }\<newline>  }''"
    by simp
  from h le le0 1 2 show ?thesis by simp
qed

end
